theory Spec2Isabelle
  imports Main "HOL-Library.Word" "HOL-Library.Multiset"
begin

section \<open>Data model of the reconcile queue (service_queue.go)\<close>

text \<open>
  A \<^verbatim>\<open>time.Time\<close> is an instant in nanoseconds and a \<^verbatim>\<open>time.Duration\<close> a number of
  nanoseconds in a 64-bit integer. \<^verbatim>\<open>t.Sub(u)\<close> is the difference, saturated to the range
  of a duration; \<^verbatim>\<open>time.Until(t)\<close> is \<^verbatim>\<open>t.Sub(time.Now())\<close> and \<^verbatim>\<open>time.Since(t)\<close> is
  \<^verbatim>\<open>time.Now().Sub(t)\<close>. Each of them reads the clock when it is called: the reading is
  the argument \<open>now\<close>.
\<close>

type_synonym time = int
type_synonym duration = int

definition saturate :: "int \<Rightarrow> duration" where
  "saturate d =
     (if d < - 9223372036854775808 then - 9223372036854775808
      else if d > 9223372036854775807 then 9223372036854775807
      else d)"

definition time_Sub :: "time \<Rightarrow> time \<Rightarrow> duration" where
  "time_Sub t u = saturate (t - u)"

definition time_Until :: "time \<Rightarrow> time \<Rightarrow> duration" where
  "time_Until now t = time_Sub t now"

definition time_Since :: "time \<Rightarrow> time \<Rightarrow> duration" where
  "time_Since now t = time_Sub now t"

definition Second :: duration where
  "Second = 1000000000"

definition defaultFailureBackoff :: duration where
  "defaultFailureBackoff = 15 * Second"

definition eventReasonUpdateFailed :: string where
  "eventReasonUpdateFailed = ''UpdateLoadBalancerFailed''"

definition EventTypeWarning :: string where
  "EventTypeWarning = ''Warning''"

text \<open>An error value carries the text its \<^verbatim>\<open>Error()\<close> method returns.\<close>

datatype error = Error string

fun errorString :: "error \<Rightarrow> string" where
  "errorString (Error s) = s"

text \<open>
  Of a \<^verbatim>\<open>corev1.Service\<close> the queue reads the namespace and the name; the rest of the
  object is the payload \<open>Spec\<close>. Values have no identity here, so a deep copy is an equal
  value.
\<close>

record Service =
  Namespace :: string
  Name :: string
  Spec :: string

definition DeepCopy :: "Service \<Rightarrow> Service" where
  "DeepCopy s = s"

record serviceKey =
  namespace :: string
  name :: string

text \<open>
  The load balancer view and the node view are declared outside the files at hand; the
  queue reads \<^verbatim>\<open>lb.rule\<close> (nil when no rule exists yet) and \<^verbatim>\<open>node.revision\<close> (uint64).
\<close>

record loadBalancer =
  lbName :: string
  rule :: "string option"

record nodeInfo =
  nodeName :: string
  revision :: "64 word"

record queueEntry =
  service :: Service
  lb :: "loadBalancer option"
  updatePool :: bool
  start :: time
  backoffUntil :: time

record queueEntryWithNodeRecent =
  queueEntry_of :: queueEntry
  topRevision :: "64 word"

type_synonym queue = "serviceKey \<rightharpoonup> queueEntry"

text \<open>
  The collaborators reached through \<^verbatim>\<open>q.cs\<close>: the node registry and the load-balancer
  adapter. Their code is not part of the files at hand, so they are parameters: a value
  of this record is how they answer during one operation of the queue. A nil error is
  \<open>None\<close> (or \<open>Inr\<close> with the value), a non-nil error is \<open>Some\<close> (or \<open>Inl\<close>).
\<close>

record CSCloud =
  nodesForService :: "Service \<Rightarrow> error + nodeInfo list"
  nodesContainingService :: "serviceKey \<Rightarrow> nodeInfo list"
  idsForNodes :: "nodeInfo list \<Rightarrow> string list \<times> string list \<times> string"
  getLoadBalancer :: "Service \<Rightarrow> string \<Rightarrow> string list \<Rightarrow> error + loadBalancer"
  shouldManageLB :: "loadBalancer \<Rightarrow> error option"
  syncNodes :: "loadBalancer \<Rightarrow> string list \<Rightarrow> string list \<Rightarrow> error option"
  updateLoadBalancerPool :: "loadBalancer \<Rightarrow> error option"

section \<open>push and pushWithBackoff\<close>

definition keyOf :: "Service \<Rightarrow> serviceKey" where
  "keyOf svc = \<lparr>namespace = Namespace svc, name = Name svc\<rparr>"

text \<open>
  \<^verbatim>\<open>push\<close> returns its error and the queue as it leaves it. A nil map and an empty map
  are both the empty map.
\<close>

definition push :: "CSCloud \<Rightarrow> queueEntry \<Rightarrow> queue \<Rightarrow> error option \<times> queue" where
  "push cs entry q =
     (let key = keyOf (service entry) in
      case q key of
        Some existing \<Rightarrow>
          (None, q(key \<mapsto> existing\<lparr>service := DeepCopy (service entry), lb := None\<rparr>))
      | None \<Rightarrow>
          (case nodesForService cs (service entry) of
             Inl err \<Rightarrow> (Some err, q)
           | Inr _ \<Rightarrow> (None, q(key \<mapsto> entry\<lparr>service := DeepCopy (service entry)\<rparr>))))"

text \<open>
  \<^verbatim>\<open>pushWithBackoff\<close> reads the clock twice: \<open>now1\<close> for \<open>backoffUntil\<close>, then \<open>now2\<close> for
  \<open>start\<close>.
\<close>

definition pushWithBackoff ::
  "CSCloud \<Rightarrow> queueEntry \<Rightarrow> duration \<Rightarrow> time \<Rightarrow> time \<Rightarrow> queue \<Rightarrow> error option \<times> queue" where
  "pushWithBackoff cs entry backoff now1 now2 q =
     push cs (entry\<lparr>backoffUntil := now1 + backoff, start := now2, lb := None\<rparr>) q"

section \<open>pop\<close>

text \<open>
  \<^verbatim>\<open>topRevision\<close> of a queued service: the loop of \<^verbatim>\<open>pop\<close> over the nodes the registry
  reports as containing it, from 0, with the unsigned comparison of uint64.
\<close>

definition topRevisionOf :: "nodeInfo list \<Rightarrow> 64 word" where
  "topRevisionOf svcNodes =
     foldl (\<lambda>topRevision node. if revision node > topRevision then revision node else topRevision)
       0 svcNodes"

text \<open>
  The range loop over the map visits every key once, in an order the runtime picks:
  the order is the parameter \<open>ks\<close>, an enumeration of the keys of the queue.
\<close>

definition iterationOrder :: "queue \<Rightarrow> serviceKey list \<Rightarrow> bool" where
  "iterationOrder q ks \<longleftrightarrow> distinct ks \<and> set ks = dom q"

definition extendEntriesOf :: "CSCloud \<Rightarrow> queue \<Rightarrow> serviceKey list \<Rightarrow> queueEntryWithNodeRecent list" where
  "extendEntriesOf cs q ks =
     List.map_filter
       (\<lambda>svcKey. case q svcKey of
            None \<Rightarrow> None
          | Some entry \<Rightarrow>
              Some \<lparr>queueEntry_of = entry,
                    topRevision = topRevisionOf (nodesContainingService cs svcKey)\<rparr>)
       ks"

text \<open>
  The clock of one pop: \<open>clock i\<close> is what the clock shows at the \<open>i\<close>-th call of
  \<^verbatim>\<open>time.Until\<close> that the pop makes, counted from 0. The count of the calls made so far
  is threaded through the comparison and the sort.
\<close>

type_synonym clock = "nat \<Rightarrow> time"

text \<open>
  The comparison handed to \<^verbatim>\<open>sort.Slice\<close>, on the elements at the two indices: each
  \<^verbatim>\<open>time.Until\<close> it reaches is a reading of its own.
\<close>

definition popLess ::
  "clock \<Rightarrow> queueEntryWithNodeRecent \<Rightarrow> queueEntryWithNodeRecent \<Rightarrow> nat \<Rightarrow> bool \<times> nat" where
  "popLess clk ei ej i =
     (if time_Until (clk i) (backoffUntil (queueEntry_of ei)) > 0 then (False, i + 1)
      else if time_Until (clk (i + 1)) (backoffUntil (queueEntry_of ej)) > 0 then (True, i + 2)
      else if topRevision ei = topRevision ej
        then (start (queueEntry_of ei) < start (queueEntry_of ej), i + 2)
      else (topRevision ei > topRevision ej, i + 2))"

text \<open>What the comparison answers when every reading is the instant \<open>now\<close>.\<close>

definition popLessAt :: "time \<Rightarrow> queueEntryWithNodeRecent \<Rightarrow> queueEntryWithNodeRecent \<Rightarrow> bool" where
  "popLessAt now ei ej =
     (if now < backoffUntil (queueEntry_of ei) then False
      else if now < backoffUntil (queueEntry_of ej) then True
      else if topRevision ei = topRevision ej
        then start (queueEntry_of ei) < start (queueEntry_of ej)
      else topRevision ei > topRevision ej)"

text \<open>
  \<^verbatim>\<open>sort.Slice\<close> is the Go library's: it is the parameter \<open>srt\<close>, which takes the
  comparison, the slice and the count of readings, and returns the slice and the count
  as it leaves them. What the library promises: it only swaps elements, so the result is
  a rearrangement of the slice whatever the comparison answers; and when the answers are
  those of one strict weak order on the elements of the slice, no element of the result
  is less than one before it. Elements that compare equal may come out in any order (the
  sort is not stable).
\<close>

type_synonym 'a sorter = "('a \<Rightarrow> 'a \<Rightarrow> nat \<Rightarrow> bool \<times> nat) \<Rightarrow> 'a list \<Rightarrow> nat \<Rightarrow> 'a list \<times> nat"

definition strictWeakOrder :: "('a \<Rightarrow> 'a \<Rightarrow> bool) \<Rightarrow> bool" where
  "strictWeakOrder lt \<longleftrightarrow>
     (\<forall>a b. lt a b \<longrightarrow> \<not> lt b a) \<and>
     (\<forall>a b c. \<not> lt b a \<and> \<not> lt c b \<longrightarrow> \<not> lt c a)"

definition sortSliceContract :: "'a sorter \<Rightarrow> bool" where
  "sortSliceContract srt \<longleftrightarrow>
     (\<forall>cmp xs i. mset (fst (srt cmp xs i)) = mset xs) \<and>
     (\<forall>cmp lt xs i.
        strictWeakOrder lt \<and> (\<forall>a\<in>set xs. \<forall>b\<in>set xs. \<forall>j. fst (cmp a b j) = lt a b) \<longrightarrow>
        sorted_wrt (\<lambda>a b. \<not> lt b a) (fst (srt cmp xs i)))"

text \<open>
  The insertion sort that \<^verbatim>\<open>sort.Slice\<close> runs on a slice of at most 12 elements: each
  element in turn is compared with its left neighbour and moves left while it is less.
  The sorted prefix is kept reversed, so the left neighbour is the head.
\<close>

fun insertLeft ::
  "('a \<Rightarrow> 'a \<Rightarrow> nat \<Rightarrow> bool \<times> nat) \<Rightarrow> 'a \<Rightarrow> 'a list \<Rightarrow> nat \<Rightarrow> 'a list \<times> nat" where
  "insertLeft cmp x [] i = ([x], i)"
| "insertLeft cmp x (r # rs) i =
     (case cmp x r i of
        (True, i') \<Rightarrow> (case insertLeft cmp x rs i' of (ys, i'') \<Rightarrow> (r # ys, i''))
      | (False, i') \<Rightarrow> (x # r # rs, i'))"

definition insertionSort :: "'a sorter" where
  "insertionSort cmp xs i =
     (case foldl (\<lambda>(acc, j) x. insertLeft cmp x acc j) ([], i) xs of
        (acc, j) \<Rightarrow> (rev acc, j))"

text \<open>The same sort with a comparison that reads no clock.\<close>

fun insertLeftBy :: "('a \<Rightarrow> 'a \<Rightarrow> bool) \<Rightarrow> 'a \<Rightarrow> 'a list \<Rightarrow> 'a list" where
  "insertLeftBy lt x [] = [x]"
| "insertLeftBy lt x (r # rs) = (if lt x r then r # insertLeftBy lt x rs else x # r # rs)"

text \<open>
  \<^verbatim>\<open>pop\<close>: the entry and ok (\<open>Some entry\<close>, or \<open>None\<close> for not ok) and the queue as it
  leaves it. The queue's mutex is held throughout. The comparisons of the sort read the
  clock from reading 0 on, and the last test reads it once more. The returned error is
  always nil. A sort that returned an empty slice for a non-empty one would make
  \<^verbatim>\<open>extendEntries[0]\<close> panic; the model gives not ok there.
\<close>

definition pop ::
  "CSCloud \<Rightarrow> queueEntryWithNodeRecent sorter \<Rightarrow> clock \<Rightarrow> serviceKey list \<Rightarrow> queue
     \<Rightarrow> queueEntry option \<times> queue" where
  "pop cs srt clk ks q =
     (let extendEntries = extendEntriesOf cs q ks in
      if length extendEntries = 0 then (None, q)
      else case srt (popLess clk) extendEntries 0 of
        ([], i) \<Rightarrow> (None, q)
      | (e0 # _, i) \<Rightarrow>
          (let entry = queueEntry_of e0 in
           if time_Until (clk i) (backoffUntil entry) > 0 then (None, q)
           else (Some entry, q(keyOf (service entry) := None))))"

text \<open>
  No entry of the queue comes out of its backoff while the pop runs: at every reading
  of the clock it is ready, or at every reading it is in backoff.
\<close>

definition clockStable :: "clock \<Rightarrow> queue \<Rightarrow> bool" where
  "clockStable clk q \<longleftrightarrow>
     (\<forall>i k e. q k = Some e \<longrightarrow> (clk i < backoffUntil e) = (clk 0 < backoffUntil e))"

section \<open>processQueueEntry\<close>

text \<open>
  The calls a reconciliation makes on its collaborators, in the order it makes them:
  the model returns them beside the error.
\<close>

datatype call =
    Lock Service
  | Unlock Service
  | NodesForService Service
  | GetLoadBalancer Service string "string list"
  | ShouldManageLB loadBalancer
  | SyncNodes loadBalancer "string list" "string list"
  | UpdateLoadBalancerPool loadBalancer

text \<open>From \<^verbatim>\<open>lb.syncNodes\<close> to the end of the function.\<close>

definition syncAndUpdatePool ::
  "CSCloud \<Rightarrow> queueEntry \<Rightarrow> loadBalancer \<Rightarrow> string list \<Rightarrow> string list \<Rightarrow> error option \<times> call list" where
  "syncAndUpdatePool cs entry l hostIDs networkIDs =
     (case syncNodes cs l hostIDs networkIDs of
        Some err \<Rightarrow> (Some err, [SyncNodes l hostIDs networkIDs])
      | None \<Rightarrow>
          if updatePool entry then
            (case updateLoadBalancerPool cs l of
               Some err \<Rightarrow> (Some err, [SyncNodes l hostIDs networkIDs, UpdateLoadBalancerPool l])
             | None \<Rightarrow> (None, [SyncNodes l hostIDs networkIDs, UpdateLoadBalancerPool l]))
          else (None, [SyncNodes l hostIDs networkIDs]))"

text \<open>The body of the function, between taking the service lock and the deferred unlock.\<close>

definition processLocked :: "CSCloud \<Rightarrow> queueEntry \<Rightarrow> error option \<times> call list" where
  "processLocked cs entry =
     (case nodesForService cs (service entry) of
        Inl err \<Rightarrow> (Some err, [NodesForService (service entry)])
      | Inr nodes \<Rightarrow>
          (case idsForNodes cs nodes of
             (hostIDs, networkIDs, projectID) \<Rightarrow>
               (case lb entry of
                  None \<Rightarrow>
                    (case getLoadBalancer cs (service entry) projectID networkIDs of
                       Inl err \<Rightarrow>
                         (Some err,
                          [NodesForService (service entry),
                           GetLoadBalancer (service entry) projectID networkIDs])
                     | Inr l \<Rightarrow>
                         if rule l = None then
                           (None,
                            [NodesForService (service entry),
                             GetLoadBalancer (service entry) projectID networkIDs])
                         else
                           (case shouldManageLB cs l of
                              Some err \<Rightarrow>
                                (None,
                                 [NodesForService (service entry),
                                  GetLoadBalancer (service entry) projectID networkIDs,
                                  ShouldManageLB l])
                            | None \<Rightarrow>
                                (case syncAndUpdatePool cs entry l hostIDs networkIDs of
                                   (err, tr) \<Rightarrow>
                                     (err,
                                      [NodesForService (service entry),
                                       GetLoadBalancer (service entry) projectID networkIDs,
                                       ShouldManageLB l] @ tr))))
                | Some l \<Rightarrow>
                    (case syncAndUpdatePool cs entry l hostIDs networkIDs of
                       (err, tr) \<Rightarrow> (err, NodesForService (service entry) # tr)))))"

definition processQueueEntry :: "CSCloud \<Rightarrow> queueEntry \<Rightarrow> error option \<times> call list" where
  "processQueueEntry cs entry =
     (case processLocked cs entry of
        (err, tr) \<Rightarrow> (err, Lock (service entry) # tr @ [Unlock (service entry)]))"

text \<open>
  The place of a call in the order the adapter's operations are promised in:
  getLoadBalancer, shouldManageLB, syncNodes, updateLoadBalancerPool. The lock and the
  registry have no place in it.
\<close>

fun adapterRank :: "call \<Rightarrow> nat option" where
  "adapterRank (GetLoadBalancer _ _ _) = Some 1"
| "adapterRank (ShouldManageLB _) = Some 2"
| "adapterRank (SyncNodes _ _ _) = Some 3"
| "adapterRank (UpdateLoadBalancerPool _) = Some 4"
| "adapterRank _ = None"

definition adapterOrder :: "call list \<Rightarrow> nat list" where
  "adapterOrder tr = List.map_filter adapterRank tr"

text \<open>The calls on the adapter among the calls of a reconciliation, in their order.\<close>

definition adapterCalls :: "call list \<Rightarrow> call list" where
  "adapterCalls tr = filter (\<lambda>c. adapterRank c \<noteq> None) tr"

section \<open>The worker loop of start\<close>

text \<open>
  What a worker changes: the queue, the two counters and the gauge (each labelled with
  namespace and service), and the events handed to the recorder. \<open>reconciled\<close> is the
  log of the reconciliations run so far, each with the service and the calls it made.
  The gauge keeps the duration that \<^verbatim>\<open>time.Since\<close> returns, in nanoseconds; its
  conversion to seconds in floating point is left out.
\<close>

type_synonym labels = "string \<times> string"

record event =
  ev_object :: Service
  ev_type :: string
  ev_reason :: string
  ev_message :: string

record workerState =
  queue :: queue
  processedTotal :: "labels \<Rightarrow> nat"
  failuresTotal :: "labels \<Rightarrow> nat"
  processedDuration :: "labels \<Rightarrow> duration option"
  events :: "event list"
  reconciled :: "(Service \<times> call list) list"

text \<open>
  What one turn of the loop meets: the collaborators as they answer during \<^verbatim>\<open>pop\<close> and
  the reconciliation, the registry as it answers later, at the re-push, the library
  sort, the order in which the map is ranged over, the clock of \<^verbatim>\<open>pop\<close>, and the
  clock readings of \<^verbatim>\<open>time.Since\<close> and of \<^verbatim>\<open>pushWithBackoff\<close>.
\<close>

record iteration =
  it_cs :: CSCloud
  it_cs_repush :: CSCloud
  it_sort :: "queueEntryWithNodeRecent sorter"
  it_order :: "serviceKey list"
  it_clock :: clock
  it_since :: time
  it_now1 :: time
  it_now2 :: time

definition labelsOf :: "Service \<Rightarrow> labels" where
  "labelsOf svc = (Namespace svc, Name svc)"

definition failureMessage :: "error \<Rightarrow> string" where
  "failureMessage err = ''Error updating load balancer with new hosts: '' @ errorString err"

text \<open>The loop body after a successful pop, from \<^verbatim>\<open>q.processQueueEntry(item)\<close> on.\<close>

definition workerItem :: "iteration \<Rightarrow> queueEntry \<Rightarrow> workerState \<Rightarrow> workerState" where
  "workerItem it item st =
     (case processQueueEntry (it_cs it) item of
        (err, tr) \<Rightarrow>
          (let st1 = st\<lparr>reconciled := reconciled st @ [(service item, tr)],
                        processedTotal := (processedTotal st)
                          (labelsOf (service item) := processedTotal st (labelsOf (service item)) + 1),
                        processedDuration := (processedDuration st)
                          (labelsOf (service item) \<mapsto> time_Since (it_since it) (start item))\<rparr>
           in case err of
                None \<Rightarrow> st1
              | Some e \<Rightarrow>
                  st1\<lparr>failuresTotal := (failuresTotal st1)
                         (labelsOf (service item) := failuresTotal st1 (labelsOf (service item)) + 1),
                      events := events st1 @
                         [\<lparr>ev_object = service item, ev_type = EventTypeWarning,
                           ev_reason = eventReasonUpdateFailed, ev_message = failureMessage e\<rparr>],
                      queue := snd (pushWithBackoff (it_cs_repush it) item defaultFailureBackoff
                                      (it_now1 it) (it_now2 it) (queue st1))\<rparr>))"

text \<open>
  One turn of the loop from \<^verbatim>\<open>q.pop()\<close> on. When nothing is popped the worker sleeps or
  returns, and the state is as it was.
\<close>

definition workerIteration :: "iteration \<Rightarrow> workerState \<Rightarrow> workerState" where
  "workerIteration it st =
     (case pop (it_cs it) (it_sort it) (it_clock it) (it_order it) (queue st) of
        (None, q') \<Rightarrow> st
      | (Some item, q') \<Rightarrow> workerItem it item (st\<lparr>queue := q'\<rparr>))"

text \<open>
  A run: turns of the loop, with pushes from the watchers between them. A worker that
  returns ends the run, so a run is a finite list.
\<close>

datatype action = Turn iteration | Push CSCloud queueEntry

fun runAction :: "workerState \<Rightarrow> action \<Rightarrow> workerState" where
  "runAction st (Turn it) = workerIteration it st"
| "runAction st (Push cs entry) = st\<lparr>queue := snd (push cs entry (queue st))\<rparr>"

definition run :: "action list \<Rightarrow> workerState \<Rightarrow> workerState" where
  "run acts st = foldl runAction st acts"

definition newServiceNodeQueue :: workerState where
  "newServiceNodeQueue =
     \<lparr>queue = Map.empty, processedTotal = (\<lambda>_. 0), failuresTotal = (\<lambda>_. 0),
      processedDuration = (\<lambda>_. None), events = [], reconciled = []\<rparr>"

text \<open>The counts the metrics are compared with.\<close>

definition isSyncNodes :: "call \<Rightarrow> bool" where
  "isSyncNodes c = (case c of SyncNodes _ _ _ \<Rightarrow> True | _ \<Rightarrow> False)"

definition syncNodesAttempts :: "labels \<Rightarrow> (Service \<times> call list) list \<Rightarrow> nat" where
  "syncNodesAttempts l rs =
     sum_list (map (\<lambda>(svc, tr). if labelsOf svc = l then length (filter isSyncNodes tr) else 0) rs)"

definition reconciliationsOf :: "labels \<Rightarrow> (Service \<times> call list) list \<Rightarrow> nat" where
  "reconciliationsOf l rs = length (filter (\<lambda>(svc, tr). labelsOf svc = l) rs)"

definition warningEvents :: "labels \<Rightarrow> event list \<Rightarrow> nat" where
  "warningEvents l evs =
     length (filter (\<lambda>ev. labelsOf (ev_object ev) = l \<and> ev_type ev = EventTypeWarning) evs)"

definition metricsParity :: "labels \<Rightarrow> workerState \<Rightarrow> bool" where
  "metricsParity l st \<longleftrightarrow>
     processedTotal st l = reconciliationsOf l (reconciled st) \<and>
     failuresTotal st l = warningEvents l (events st) \<and>
     warningEvents l (events st) = length (filter (\<lambda>ev. labelsOf (ev_object ev) = l) (events st)) \<and>
     syncNodesAttempts l (reconciled st) \<le> processedTotal st l \<and>
     failuresTotal st l \<le> processedTotal st l"

section \<open>Node lookup (instances.go)\<close>

record ObjectMeta =
  om_Name :: string
  Labels :: "string \<rightharpoonup> string"
  Annotations :: "string \<rightharpoonup> string"

record node =
  projectID :: string
  node_name :: string
  environment :: string

text \<open>
  The fields of \<^verbatim>\<open>CSCloud\<close> that instances.go reads. The Kubernetes client is a
  parameter: \<open>nodes_Get\<close> answers \<^verbatim>\<open>Nodes().Get(name, ...)\<close> and \<open>nodes_List\<close> answers
  \<^verbatim>\<open>Nodes().List(...)\<close> for a label selector, with the \<^verbatim>\<open>Items\<close> of the list.
  \<open>fmt_q\<close> is the library's rendering of a string under the verb \<^verbatim>\<open>%q\<close>.
\<close>

record CSCloudNodes =
  nodeNameLabel :: string
  environmentLabel :: string
  projectIDLabel :: string
  nodes_Get :: "string \<Rightarrow> error + ObjectMeta"
  nodes_List :: "string \<Rightarrow> error + ObjectMeta list"
  fmt_q :: "string \<Rightarrow> string"

definition getLabelOrAnnotation :: "ObjectMeta \<Rightarrow> string \<Rightarrow> string \<times> bool" where
  "getLabelOrAnnotation obj nm =
     (if nm = [] then ([], False)
      else case Labels obj nm of
        Some n \<Rightarrow> (n, True)
      | None \<Rightarrow> (case Annotations obj nm of Some n \<Rightarrow> (n, True) | None \<Rightarrow> ([], False)))"

definition newNode :: "CSCloudNodes \<Rightarrow> ObjectMeta \<Rightarrow> error + node" where
  "newNode cs kubeNode =
     (let nm = (case getLabelOrAnnotation kubeNode (nodeNameLabel cs) of
                  (n, ok) \<Rightarrow> if ok then n else om_Name kubeNode);
          env = fst (getLabelOrAnnotation kubeNode (environmentLabel cs))
      in case getLabelOrAnnotation kubeNode (projectIDLabel cs) of
           (pid, ok) \<Rightarrow>
             if \<not> ok then Inl (Error (''failed to retrive projectID from node '' @ fmt_q cs nm))
             else Inr \<lparr>projectID = pid, node_name = nm, environment = env\<rparr>)"

definition getNodeByName :: "CSCloudNodes \<Rightarrow> string \<Rightarrow> error + node" where
  "getNodeByName cs nm =
     (case nodes_Get cs nm of
        Inl err \<Rightarrow> Inl err
      | Inr kubeNode \<Rightarrow> newNode cs kubeNode)"

text \<open>
  The last line of \<^verbatim>\<open>getNodeByProviderID\<close> reads \<^verbatim>\<open>Items[0]\<close>, which panics on an empty
  list; the model gives an error there.
\<close>

definition getNodeByProviderID :: "CSCloudNodes \<Rightarrow> string \<Rightarrow> error + node" where
  "getNodeByProviderID cs pid =
     (if nodeNameLabel cs = [] then getNodeByName cs pid
      else case nodes_List cs (nodeNameLabel cs @ ''='' @ pid) of
        Inl err \<Rightarrow> Inl (Error (''failed to list nodes: '' @ errorString err))
      | Inr items \<Rightarrow>
          if length items > 0 then Inl (Error (''multiple nodes found for provider id '' @ pid))
          else if length items = 0 then Inl (Error (''no node found for provider id '' @ pid))
          else (case items of
                  [] \<Rightarrow> Inl (Error ''index out of range'')
                | item # _ \<Rightarrow> newNode cs item))"

section \<open>Sequences of pushes, and the keys of the queue\<close>

definition pushAll :: "(CSCloud \<times> queueEntry) list \<Rightarrow> queue \<Rightarrow> queue" where
  "pushAll ps q = foldl (\<lambda>q' (cs, entry). snd (push cs entry q')) q ps"

text \<open>Every entry is stored under the key of its own service.\<close>

definition queueKeyed :: "queue \<Rightarrow> bool" where
  "queueKeyed q \<longleftrightarrow> (\<forall>k e. q k = Some e \<longrightarrow> keyOf (service e) = k)"

section \<open>Workers side by side\<close>

text \<open>The two operations of the service lock table.\<close>

definition isLockOp :: "call \<Rightarrow> bool" where
  "isLockOp c = (case c of Lock _ \<Rightarrow> True | Unlock _ \<Rightarrow> True | _ \<Rightarrow> False)"

text \<open>
  A worker is inside at most one call at a time (\<open>running\<close>) and has the reconciliations
  of the items it pops still to run (\<open>jobs\<close>), each with its service and the calls it has
  yet to make. The pool holds the lock table: for every key, the worker that owns it.
\<close>

record worker =
  running :: "call option"
  jobs :: "(Service \<times> call list) list"

record pool =
  held :: "serviceKey \<Rightarrow> nat option"
  workers :: "nat \<Rightarrow> worker"

text \<open>
  Modelled from the spec: the service lock table \<^verbatim>\<open>svcLock\<close>, whose code is not in the
  files at hand. \<^verbatim>\<open>lock(service)\<close> blocks until exclusive ownership of the ServiceKey is
  held, and \<^verbatim>\<open>unlock(service)\<close> releases it. One step of worker \<open>w\<close>: the call it is
  inside returns; or it takes its next call, where a lock on a key that is held leaves
  the worker waiting; or it goes on to its next item. The workers are preemptive, so any
  list of worker numbers is a schedule.
\<close>

definition stepWorker :: "nat \<Rightarrow> pool \<Rightarrow> pool" where
  "stepWorker w p =
     (case running (workers p w) of
        Some c \<Rightarrow> p\<lparr>workers := (workers p)(w := (workers p w)\<lparr>running := None\<rparr>)\<rparr>
      | None \<Rightarrow>
          (case jobs (workers p w) of
             [] \<Rightarrow> p
           | (svc, []) # js \<Rightarrow> p\<lparr>workers := (workers p)(w := \<lparr>running = None, jobs = js\<rparr>)\<rparr>
           | (svc, c # tr) # js \<Rightarrow>
               (case c of
                  Lock s \<Rightarrow>
                    if held p (keyOf s) = None
                    then p\<lparr>held := (held p)(keyOf s \<mapsto> w),
                           workers := (workers p)(w := \<lparr>running = None, jobs = (svc, tr) # js\<rparr>)\<rparr>
                    else p
                | Unlock s \<Rightarrow>
                    p\<lparr>held := (held p)(keyOf s := None),
                      workers := (workers p)(w := \<lparr>running = None, jobs = (svc, tr) # js\<rparr>)\<rparr>
                | _ \<Rightarrow>
                    p\<lparr>workers := (workers p)(w := \<lparr>running = Some c, jobs = (svc, tr) # js\<rparr>)\<rparr>)))"

definition runSchedule :: "nat list \<Rightarrow> pool \<Rightarrow> pool" where
  "runSchedule sched p = foldl (\<lambda>p' w. stepWorker w p') p sched"

text \<open>
  The pool at the start: no lock is held, and every worker has the reconciliations of
  its items, as \<^verbatim>\<open>processQueueEntry\<close> runs them, before it.
\<close>

definition startPool :: "(nat \<Rightarrow> (CSCloud \<times> queueEntry) list) \<Rightarrow> pool" where
  "startPool items =
     \<lparr>held = (\<lambda>_. None),
      workers = (\<lambda>w. \<lparr>running = None,
                       jobs = map (\<lambda>(cs, entry). (service entry, snd (processQueueEntry cs entry)))
                                (items w)\<rparr>)\<rparr>"

text \<open>Worker \<open>w\<close> is inside a call of a reconciliation of the key \<open>K\<close>.\<close>

definition reconciling :: "pool \<Rightarrow> nat \<Rightarrow> serviceKey \<Rightarrow> bool" where
  "reconciling p w K \<longleftrightarrow>
     running (workers p w) \<noteq> None \<and>
     (case jobs (workers p w) of [] \<Rightarrow> False | (svc, _) # _ \<Rightarrow> keyOf svc = K)"

text \<open>
  Where a reconciliation stands: past its lock with the unlock still to come, or with
  its lock still to take. A worker that is not past a lock holds nothing and is inside
  no call; one that is past the lock of its item owns that key and no other.
\<close>

definition inProgress :: "Service \<times> call list \<Rightarrow> bool" where
  "inProgress j \<longleftrightarrow>
     snd j \<noteq> [] \<and> last (snd j) = Unlock (fst j) \<and> list_all (\<lambda>c. \<not> isLockOp c) (butlast (snd j))"

definition notStarted :: "Service \<times> call list \<Rightarrow> bool" where
  "notStarted j \<longleftrightarrow>
     (case snd j of Lock s # rest \<Rightarrow> s = fst j \<and> inProgress (fst j, rest) | _ \<Rightarrow> False)"

definition idle :: "pool \<Rightarrow> nat \<Rightarrow> bool" where
  "idle p w \<longleftrightarrow> running (workers p w) = None \<and> (\<forall>K. held p K \<noteq> Some w)"

definition owns :: "pool \<Rightarrow> nat \<Rightarrow> serviceKey \<Rightarrow> bool" where
  "owns p w k \<longleftrightarrow> held p k = Some w \<and> (\<forall>K. held p K = Some w \<longrightarrow> K = k)"

definition workerInv :: "pool \<Rightarrow> nat \<Rightarrow> bool" where
  "workerInv p w \<longleftrightarrow>
     (case jobs (workers p w) of
        [] \<Rightarrow> idle p w
      | j # js \<Rightarrow>
          list_all notStarted js \<and>
          ((notStarted j \<and> idle p w) \<or> (inProgress j \<and> owns p w (keyOf (fst j)))
            \<or> (snd j = [] \<and> idle p w)))"

section \<open>Concrete inputs\<close>

definition svcX :: Service where
  "svcX = \<lparr>Namespace = ''a'', Name = ''x'', Spec = ''v1''\<rparr>"

definition svcX2 :: Service where
  "svcX2 = \<lparr>Namespace = ''a'', Name = ''x'', Spec = ''v2''\<rparr>"

definition svcY :: Service where
  "svcY = \<lparr>Namespace = ''a'', Name = ''y'', Spec = ''v1''\<rparr>"

definition keyX :: serviceKey where
  "keyX = \<lparr>namespace = ''a'', name = ''x''\<rparr>"

definition keyY :: serviceKey where
  "keyY = \<lparr>namespace = ''a'', name = ''y''\<rparr>"

definition node1 :: nodeInfo where
  "node1 = \<lparr>nodeName = ''n1'', revision = 5\<rparr>"

definition node2 :: nodeInfo where
  "node2 = \<lparr>nodeName = ''n2'', revision = 9\<rparr>"

definition lb1 :: loadBalancer where
  "lb1 = \<lparr>lbName = ''lb-x'', rule = Some ''rule-1''\<rparr>"

definition lbNoRule :: loadBalancer where
  "lbNoRule = \<lparr>lbName = ''lb-x'', rule = None\<rparr>"

text \<open>
  Collaborators that accept everything: x is on node1 (revision 5), y on node2
  (revision 9).
\<close>

definition csOK :: CSCloud where
  "csOK =
     \<lparr>nodesForService = (\<lambda>_. Inr [node1]),
      nodesContainingService = (\<lambda>k. if name k = ''y'' then [node2] else [node1]),
      idsForNodes = (\<lambda>_. ([''h1''], [''net1''], ''p1'')),
      getLoadBalancer = (\<lambda>_ _ _. Inr lb1),
      shouldManageLB = (\<lambda>_. None),
      syncNodes = (\<lambda>_ _ _. None),
      updateLoadBalancerPool = (\<lambda>_. None)\<rparr>"

definition csNoNodes :: CSCloud where
  "csNoNodes = csOK\<lparr>nodesForService := (\<lambda>_. Inl (Error ''no nodes''))\<rparr>"

definition csSkip :: CSCloud where
  "csSkip = csOK\<lparr>shouldManageLB := (\<lambda>_. Some (Error ''skip''))\<rparr>"

definition csNoRule :: CSCloud where
  "csNoRule = csOK\<lparr>getLoadBalancer := (\<lambda>_ _ _. Inr lbNoRule)\<rparr>"

definition csSyncFails :: CSCloud where
  "csSyncFails = csOK\<lparr>syncNodes := (\<lambda>_ _ _. Some (Error ''timeout''))\<rparr>"

definition entryX :: queueEntry where
  "entryX = \<lparr>service = svcX, lb = None, updatePool = False, start = 0, backoffUntil = 0\<rparr>"

definition entryX2 :: queueEntry where
  "entryX2 = \<lparr>service = svcX2, lb = None, updatePool = True, start = 5, backoffUntil = 0\<rparr>"

definition entryY :: queueEntry where
  "entryY = \<lparr>service = svcY, lb = None, updatePool = False, start = 1, backoffUntil = 0\<rparr>"

definition entryCached :: queueEntry where
  "entryCached = entryX\<lparr>lb := Some lb1\<rparr>"

text \<open>
  Three queued services: a on a node of revision 5, b on one of revision 9 and in backoff
  until 10, c on one of revision 7. The clock shows 9 at the first reading of a pop and
  10 at every later one.
\<close>

definition node3 :: nodeInfo where
  "node3 = \<lparr>nodeName = ''n3'', revision = 7\<rparr>"

definition keyA :: serviceKey where
  "keyA = \<lparr>namespace = ''ns'', name = ''a''\<rparr>"

definition keyB :: serviceKey where
  "keyB = \<lparr>namespace = ''ns'', name = ''b''\<rparr>"

definition keyC :: serviceKey where
  "keyC = \<lparr>namespace = ''ns'', name = ''c''\<rparr>"

definition entryA :: queueEntry where
  "entryA = \<lparr>service = \<lparr>Namespace = ''ns'', Name = ''a'', Spec = ''v1''\<rparr>, lb = None,
              updatePool = False, start = 0, backoffUntil = 0\<rparr>"

definition entryB :: queueEntry where
  "entryB = \<lparr>service = \<lparr>Namespace = ''ns'', Name = ''b'', Spec = ''v1''\<rparr>, lb = None,
              updatePool = False, start = 0, backoffUntil = 10\<rparr>"

definition entryC :: queueEntry where
  "entryC = \<lparr>service = \<lparr>Namespace = ''ns'', Name = ''c'', Spec = ''v1''\<rparr>, lb = None,
              updatePool = False, start = 0, backoffUntil = 0\<rparr>"

definition csABC :: CSCloud where
  "csABC = csOK\<lparr>nodesContainingService :=
             (\<lambda>k. if name k = ''a'' then [node1] else if name k = ''b'' then [node2] else [node3])\<rparr>"

definition clockTick :: clock where
  "clockTick i = (if i = 0 then 9 else 10)"

definition itOK :: iteration where
  "itOK = \<lparr>it_cs = csOK, it_cs_repush = csOK, it_sort = insertionSort, it_order = [keyX],
           it_clock = (\<lambda>_. 0), it_since = 2, it_now1 = 3, it_now2 = 4\<rparr>"

definition itNoRule :: iteration where
  "itNoRule = itOK\<lparr>it_cs := csNoRule\<rparr>"

definition itSyncFails :: iteration where
  "itSyncFails = itOK\<lparr>it_cs := csSyncFails\<rparr>"

definition metaNode1 :: ObjectMeta where
  "metaNode1 =
     \<lparr>om_Name = ''node-1'',
      Labels = [''iaas-id'' \<mapsto> ''vm-1'', ''project-id'' \<mapsto> ''proj-1''],
      Annotations = Map.empty\<rparr>"

text \<open>A cluster with the one node metaNode1, listed under its node-name label.\<close>

definition csLabelled :: CSCloudNodes where
  "csLabelled =
     \<lparr>nodeNameLabel = ''iaas-id'', environmentLabel = ''datacenter'',
      projectIDLabel = ''project-id'',
      nodes_Get = (\<lambda>n. if n = ''node-1'' then Inr metaNode1 else Inl (Error ''not found'')),
      nodes_List = (\<lambda>sel. if sel = ''iaas-id=vm-1'' then Inr [metaNode1] else Inr []),
      fmt_q = (\<lambda>n. n)\<rparr>"

definition csUnlabelled :: CSCloudNodes where
  "csUnlabelled = csLabelled\<lparr>nodeNameLabel := []\<rparr>"

text \<open>Two workers with items of the same key, and two with items of different keys.\<close>

definition sameKeyWorkers :: "nat \<Rightarrow> (CSCloud \<times> queueEntry) list" where
  "sameKeyWorkers w = (if w = 0 then [(csOK, entryX)] else if w = 1 then [(csOK, entryX2)] else [])"

definition otherKeyWorkers :: "nat \<Rightarrow> (CSCloud \<times> queueEntry) list" where
  "otherKeyWorkers w = (if w = 0 then [(csOK, entryX)] else if w = 1 then [(csOK, entryY)] else [])"

section \<open>Unfolding the concrete inputs\<close>

lemmas ex_defs = svcX_def svcX2_def svcY_def keyX_def keyY_def node1_def node2_def lb1_def
  lbNoRule_def csOK_def csNoNodes_def csSkip_def csNoRule_def csSyncFails_def entryX_def
  entryX2_def entryY_def entryCached_def itOK_def itNoRule_def itSyncFails_def
  metaNode1_def csLabelled_def csUnlabelled_def node3_def keyA_def keyB_def keyC_def
  entryA_def entryB_def entryC_def csABC_def

lemmas pop_eval = pop_def Let_def extendEntriesOf_def insertionSort_def popLess_def
  time_Until_def time_Sub_def saturate_def topRevisionOf_def keyOf_def

lemmas process_defs = processQueueEntry_def processLocked_def syncAndUpdatePool_def

section \<open>The library sort: insertion sort meets the contract\<close>

lemma insertLeftBy_set: "set (insertLeftBy lt x rs) = insert x (set rs)"
  by (induction rs) auto

lemma insertLeftBy_sorted:
  assumes "strictWeakOrder lt" "sorted_wrt (\<lambda>a b. \<not> lt a b) rs"
  shows "sorted_wrt (\<lambda>a b. \<not> lt a b) (insertLeftBy lt x rs)"
  using assms(2)
proof (induction rs)
  case Nil
  then show ?case by simp
next
  case (Cons r rs)
  have asym: "\<And>a b. lt a b \<Longrightarrow> \<not> lt b a"
    and ntr: "\<And>a b c. \<not> lt b a \<Longrightarrow> \<not> lt c b \<Longrightarrow> \<not> lt c a"
    using assms(1) unfolding strictWeakOrder_def by blast+
  show ?case
  proof (cases "lt x r")
    case True
    then have "\<not> lt r x" by (rule asym)
    with True Cons show ?thesis by (auto simp: insertLeftBy_set)
  next
    case False
    have "\<forall>y\<in>set rs. \<not> lt x y"
    proof
      fix y assume "y \<in> set rs"
      with Cons.prems have "\<not> lt r y" by simp
      from ntr[OF this False] show "\<not> lt x y" .
    qed
    with False Cons.prems show ?thesis by simp
  qed
qed

lemma foldl_insertLeftBy_sorted:
  "strictWeakOrder lt \<Longrightarrow> sorted_wrt (\<lambda>a b. \<not> lt a b) acc \<Longrightarrow>
   sorted_wrt (\<lambda>a b. \<not> lt a b) (foldl (\<lambda>acc x. insertLeftBy lt x acc) acc xs)"
  by (induction xs arbitrary: acc) (auto simp: insertLeftBy_sorted)

lemma insertLeft_mset: "mset (fst (insertLeft cmp x rs i)) = add_mset x (mset rs)"
proof (induction rs arbitrary: i)
  case Nil
  then show ?case by simp
next
  case (Cons r rs)
  obtain b i1 where c: "cmp x r i = (b, i1)" by (cases "cmp x r i")
  obtain ys i2 where t: "insertLeft cmp x rs i1 = (ys, i2)"
    by (cases "insertLeft cmp x rs i1")
  from Cons.IH[of i1] t have "mset ys = add_mset x (mset rs)" by simp
  with c t show ?case by (cases b) simp_all
qed

lemma foldl_insertLeft_mset:
  "mset (fst (foldl (\<lambda>(acc, j) x. insertLeft cmp x acc j) (acc, i) xs)) = mset acc + mset xs"
proof (induction xs arbitrary: acc i)
  case Nil
  then show ?case by simp
next
  case (Cons x xs)
  obtain acc1 i1 where st: "insertLeft cmp x acc i = (acc1, i1)"
    by (cases "insertLeft cmp x acc i")
  then have "mset acc1 = add_mset x (mset acc)"
    using insertLeft_mset[of cmp x acc i] by simp
  with Cons.IH[of acc1 i1] st show ?case by simp
qed

lemma insertLeft_reads_no_clock:
  assumes "\<forall>r\<in>set rs. \<forall>j. fst (cmp x r j) = lt x r"
  shows "fst (insertLeft cmp x rs i) = insertLeftBy lt x rs"
  using assms
proof (induction rs arbitrary: i)
  case Nil
  then show ?case by simp
next
  case (Cons r rs)
  obtain b i1 where c: "cmp x r i = (b, i1)" by (cases "cmp x r i")
  with Cons.prems have b: "b = lt x r" by (metis fst_conv list.set_intros(1))
  from Cons.prems have "\<forall>r\<in>set rs. \<forall>j. fst (cmp x r j) = lt x r" by simp
  from Cons.IH[OF this, of i1] have ih: "fst (insertLeft cmp x rs i1) = insertLeftBy lt x rs" .
  obtain ys i2 where t: "insertLeft cmp x rs i1 = (ys, i2)"
    by (cases "insertLeft cmp x rs i1")
  with ih have "ys = insertLeftBy lt x rs" by simp
  with c b t show ?case by (cases "lt x r") simp_all
qed

lemma foldl_insertLeft_reads_no_clock:
  assumes "\<forall>a\<in>A. \<forall>b\<in>A. \<forall>j. fst (cmp a b j) = lt a b"
  shows "set acc \<subseteq> A \<Longrightarrow> set xs \<subseteq> A \<Longrightarrow>
         fst (foldl (\<lambda>(acc, j) x. insertLeft cmp x acc j) (acc, i) xs)
           = foldl (\<lambda>acc x. insertLeftBy lt x acc) acc xs"
proof (induction xs arbitrary: acc i)
  case Nil
  then show ?case by simp
next
  case (Cons x xs)
  obtain acc1 i1 where st: "insertLeft cmp x acc i = (acc1, i1)"
    by (cases "insertLeft cmp x acc i")
  have "\<forall>r\<in>set acc. \<forall>j. fst (cmp x r j) = lt x r"
    using assms Cons.prems by auto
  with insertLeft_reads_no_clock[where cmp = cmp and x = x and rs = acc and lt = lt and i = i] st
  have acc1: "acc1 = insertLeftBy lt x acc" by simp
  then have "set acc1 \<subseteq> A" using Cons.prems by (simp add: insertLeftBy_set)
  moreover have "set xs \<subseteq> A" using Cons.prems by simp
  ultimately show ?case using Cons.IH[of acc1 i1] st acc1 by simp
qed

lemma insertionSort_contract: "sortSliceContract insertionSort"
  unfolding sortSliceContract_def
proof (intro conjI allI impI)
  fix cmp :: "'a \<Rightarrow> 'a \<Rightarrow> nat \<Rightarrow> bool \<times> nat" and xs i
  obtain acc j where f: "foldl (\<lambda>(acc, j) x. insertLeft cmp x acc j) ([], i) xs = (acc, j)"
    by (cases "foldl (\<lambda>(acc, j) x. insertLeft cmp x acc j) ([], i) xs")
  with foldl_insertLeft_mset[of cmp "[]" i xs]
  show "mset (fst (insertionSort cmp xs i)) = mset xs"
    by (simp add: insertionSort_def)
next
  fix cmp :: "'a \<Rightarrow> 'a \<Rightarrow> nat \<Rightarrow> bool \<times> nat" and lt xs i
  assume a: "strictWeakOrder lt \<and> (\<forall>a\<in>set xs. \<forall>b\<in>set xs. \<forall>j. fst (cmp a b j) = lt a b)"
  then have "fst (foldl (\<lambda>(acc, j) x. insertLeft cmp x acc j) ([], i) xs)
           = foldl (\<lambda>acc x. insertLeftBy lt x acc) [] xs"
    by (intro foldl_insertLeft_reads_no_clock[where A = "set xs"]) auto
  moreover have "sorted_wrt (\<lambda>a b. \<not> lt a b) (foldl (\<lambda>acc x. insertLeftBy lt x acc) [] xs)"
    using a by (intro foldl_insertLeftBy_sorted) auto
  moreover obtain acc j where "foldl (\<lambda>(acc, j) x. insertLeft cmp x acc j) ([], i) xs = (acc, j)"
    by (cases "foldl (\<lambda>(acc, j) x. insertLeft cmp x acc j) ([], i) xs")
  ultimately show "sorted_wrt (\<lambda>a b. \<not> lt b a) (fst (insertionSort cmp xs i))"
    by (simp add: insertionSort_def sorted_wrt_rev)
qed

lemma saturate_pos: "(saturate d > 0) = (d > 0)"
  by (simp add: saturate_def)

lemma time_Until_pos: "(time_Until now t > 0) = (now < t)"
  by (simp add: time_Until_def time_Sub_def saturate_pos)

lemma popLessAt_strictWeakOrder: "strictWeakOrder (popLessAt now)"
  unfolding strictWeakOrder_def popLessAt_def
  by (auto split: if_splits)

lemma popLess_standing_clock:
  assumes "\<forall>j. (clk j < backoffUntil (queueEntry_of a)) = (clk 0 < backoffUntil (queueEntry_of a))"
    and "\<forall>j. (clk j < backoffUntil (queueEntry_of b)) = (clk 0 < backoffUntil (queueEntry_of b))"
  shows "fst (popLess clk a b i) = popLessAt (clk 0) a b"
proof -
  from assms have
    "(clk i < backoffUntil (queueEntry_of a)) = (clk 0 < backoffUntil (queueEntry_of a))"
    "(clk (i + 1) < backoffUntil (queueEntry_of b)) = (clk 0 < backoffUntil (queueEntry_of b))"
    by blast+
  then show ?thesis by (simp add: popLess_def popLessAt_def time_Until_pos)
qed

section \<open>What pop returns\<close>

lemma set_extendEntriesOf:
  "set (extendEntriesOf cs q ks) =
     {\<lparr>queueEntry_of = e, topRevision = topRevisionOf (nodesContainingService cs k)\<rparr> | k e.
        k \<in> set ks \<and> q k = Some e}"
  unfolding extendEntriesOf_def
  by (induction ks) (auto split: option.splits)

lemma sorted_set:
  assumes "sortSliceContract srt"
  shows "set (fst (srt cmp xs i)) = set xs"
proof -
  from assms have "mset (fst (srt cmp xs i)) = mset xs"
    unfolding sortSliceContract_def by blast
  then show ?thesis by (rule mset_eq_setD)
qed

lemma sorted_nonempty:
  assumes "sortSliceContract srt" "xs \<noteq> []"
  shows "fst (srt cmp xs i) \<noteq> []"
  using sorted_set[OF assms(1), of cmp xs i] assms(2) by auto

lemma sorted_head:
  assumes "sortSliceContract srt" "strictWeakOrder lt"
    and "\<forall>a\<in>set xs. \<forall>b\<in>set xs. \<forall>j. fst (cmp a b j) = lt a b"
    and "fst (srt cmp xs i) = e0 # rest"
  shows "e0 \<in> set xs \<and> (\<forall>y\<in>set xs. \<not> lt y e0)"
proof -
  from assms(1,2,3) have s: "sorted_wrt (\<lambda>a b. \<not> lt b a) (fst (srt cmp xs i))"
    unfolding sortSliceContract_def by blast
  have st: "set (fst (srt cmp xs i)) = set xs" by (rule sorted_set[OF assms(1)])
  from assms(2) have "\<not> lt e0 e0" unfolding strictWeakOrder_def by blast
  moreover from s assms(4) have "\<forall>y\<in>set rest. \<not> lt y e0" by simp
  ultimately show ?thesis using st assms(4) by auto
qed

lemma pop_cases:
  "\<exists>r. pop cs srt clk ks q = (r, if r = None then q else q(keyOf (service (the r)) := None))"
  by (auto simp: pop_def Let_def split: if_splits list.splits prod.splits)

lemma pop_head:
  assumes "pop cs srt clk ks q = (Some e, q')"
  shows "\<exists>e0 rest i. srt (popLess clk) (extendEntriesOf cs q ks) 0 = (e0 # rest, i)
           \<and> queueEntry_of e0 = e \<and> backoffUntil e \<le> clk i
           \<and> q' = q(keyOf (service e) := None)"
  using assms
  by (auto simp: pop_def Let_def time_Until_pos split: if_splits list.splits prod.splits)

lemma pop_ready: "pop cs srt clk ks q = (Some e, q') \<Longrightarrow> \<exists>i. backoffUntil e \<le> clk i"
  using pop_head by blast

lemma pop_delete: "pop cs srt clk ks q = (Some e, q') \<Longrightarrow> q' = q(keyOf (service e) := None)"
  using pop_head by blast

lemma pop_Some_in_entries:
  assumes "sortSliceContract srt" "pop cs srt clk ks q = (Some e, q')"
  shows "\<exists>x\<in>set (extendEntriesOf cs q ks). queueEntry_of x = e"
proof -
  from pop_head[OF assms(2)] obtain e0 rest i where
    h: "srt (popLess clk) (extendEntriesOf cs q ks) 0 = (e0 # rest, i)" "queueEntry_of e0 = e"
    by blast
  from sorted_set[OF assms(1), of "popLess clk" "extendEntriesOf cs q ks" 0] h(1)
  have "e0 \<in> set (extendEntriesOf cs q ks)" by auto
  with h(2) show ?thesis by blast
qed

lemma pop_Some_in_queue:
  assumes "sortSliceContract srt" "pop cs srt clk ks q = (Some e, q')"
  shows "\<exists>k. q k = Some e"
  using pop_Some_in_entries[OF assms] unfolding set_extendEntriesOf by auto

lemma extendEntries_standing_clock:
  assumes "clockStable clk q"
  shows "\<forall>a\<in>set (extendEntriesOf cs q ks). \<forall>b\<in>set (extendEntriesOf cs q ks). \<forall>j.
           fst (popLess clk a b j) = popLessAt (clk 0) a b"
proof (intro ballI allI)
  fix a b j
  assume "a \<in> set (extendEntriesOf cs q ks)" "b \<in> set (extendEntriesOf cs q ks)"
  then obtain ka kb where "q ka = Some (queueEntry_of a)" "q kb = Some (queueEntry_of b)"
    unfolding set_extendEntriesOf by auto
  with assms have
    "\<forall>j. (clk j < backoffUntil (queueEntry_of a)) = (clk 0 < backoffUntil (queueEntry_of a))"
    "\<forall>j. (clk j < backoffUntil (queueEntry_of b)) = (clk 0 < backoffUntil (queueEntry_of b))"
    unfolding clockStable_def by blast+
  then show "fst (popLess clk a b j) = popLessAt (clk 0) a b"
    by (rule popLess_standing_clock)
qed

lemma pop_Some_standing_clock:
  assumes "sortSliceContract srt" "clockStable clk q" "pop cs srt clk ks q = (Some e, q')"
  shows "\<exists>x\<in>set (extendEntriesOf cs q ks). queueEntry_of x = e \<and>
           (\<forall>y\<in>set (extendEntriesOf cs q ks). \<not> popLessAt (clk 0) y x)"
    and "backoffUntil e \<le> clk 0"
proof -
  from pop_head[OF assms(3)] obtain e0 rest i where
    h: "srt (popLess clk) (extendEntriesOf cs q ks) 0 = (e0 # rest, i)" "queueEntry_of e0 = e"
       "backoffUntil e \<le> clk i"
    by blast
  from h(1) have f: "fst (srt (popLess clk) (extendEntriesOf cs q ks) 0) = e0 # rest" by simp
  from sorted_head[OF assms(1) popLessAt_strictWeakOrder
      extendEntries_standing_clock[OF assms(2)] f] h(2)
  show "\<exists>x\<in>set (extendEntriesOf cs q ks). queueEntry_of x = e \<and>
           (\<forall>y\<in>set (extendEntriesOf cs q ks). \<not> popLessAt (clk 0) y x)" by blast
  from pop_Some_in_queue[OF assms(1,3)] obtain k where "q k = Some e" by blast
  with assms(2) have "(clk i < backoffUntil e) = (clk 0 < backoffUntil e)"
    unfolding clockStable_def by blast
  with h(3) show "backoffUntil e \<le> clk 0" by simp
qed

lemma pop_None_standing_clock:
  assumes "sortSliceContract srt" "clockStable clk q" "pop cs srt clk ks q = (None, q')"
  shows "\<forall>y\<in>set (extendEntriesOf cs q ks). clk 0 < backoffUntil (queueEntry_of y)"
proof (cases "extendEntriesOf cs q ks = []")
  case True
  then show ?thesis by simp
next
  case False
  obtain srtd i where sr: "srt (popLess clk) (extendEntriesOf cs q ks) 0 = (srtd, i)"
    by (cases "srt (popLess clk) (extendEntriesOf cs q ks) 0")
  from sorted_nonempty[OF assms(1) False, of "popLess clk" 0] sr
  obtain e0 rest where h: "srtd = e0 # rest" by (cases srtd) auto
  with assms(3) False sr have b: "clk i < backoffUntil (queueEntry_of e0)"
    by (auto simp: pop_def Let_def time_Until_pos split: if_splits)
  from sr h have f: "fst (srt (popLess clk) (extendEntriesOf cs q ks) 0) = e0 # rest" by simp
  from sorted_head[OF assms(1) popLessAt_strictWeakOrder
      extendEntries_standing_clock[OF assms(2)] f]
  have e0: "e0 \<in> set (extendEntriesOf cs q ks)"
    and least: "\<forall>y\<in>set (extendEntriesOf cs q ks). \<not> popLessAt (clk 0) y e0" by blast+
  from e0 obtain k where "q k = Some (queueEntry_of e0)"
    unfolding set_extendEntriesOf by auto
  with assms(2) b have "clk 0 < backoffUntil (queueEntry_of e0)"
    unfolding clockStable_def by blast
  with least show ?thesis
    by (auto simp: popLessAt_def split: if_splits)
qed

lemma topRevisionOf_foldl:
  "a \<le> foldl (\<lambda>topRevision node. if revision node > topRevision then revision node else topRevision) a ns
   \<and> (\<forall>n\<in>set ns. revision n \<le>
        foldl (\<lambda>topRevision node. if revision node > topRevision then revision node else topRevision) a ns)
   \<and> foldl (\<lambda>topRevision node. if revision node > topRevision then revision node else topRevision) a ns
        \<in> insert a (revision ` set ns)"
proof (induction ns arbitrary: a)
  case Nil
  then show ?case by simp
next
  case (Cons n ns)
  show ?case
  proof (cases "revision n > a")
    case True
    with Cons[of "revision n"] show ?thesis by (auto simp: less_imp_le intro: order_trans)
  next
    case False
    then have "revision n \<le> a" by simp
    with False Cons[of a] show ?thesis by (auto intro: order_trans)
  qed
qed

lemma topRevisionOf_Max: "topRevisionOf ns = Max (insert 0 (revision ` set ns))"
proof -
  have "Max (insert 0 (revision ` set ns)) = topRevisionOf ns"
    unfolding topRevisionOf_def
    using topRevisionOf_foldl[of 0 ns] by (intro Max_eqI) auto
  then show ?thesis by simp
qed

lemma extendEntries_iterationOrder:
  assumes "iterationOrder q ks" "q k = Some e"
  shows "\<lparr>queueEntry_of = e, topRevision = topRevisionOf (nodesContainingService cs k)\<rparr>
           \<in> set (extendEntriesOf cs q ks)"
  using assms unfolding set_extendEntriesOf iterationOrder_def by auto

lemma pop_returns_ready:
  assumes "sortSliceContract srt" "iterationOrder q ks" "clockStable clk q"
    and "q k = Some e" "backoffUntil e \<le> clk 0"
  shows "\<exists>e1. pop cs srt clk ks q = (Some e1, q(keyOf (service e1) := None))"
proof -
  obtain r where r: "pop cs srt clk ks q = (r, if r = None then q else q(keyOf (service (the r)) := None))"
    using pop_cases by blast
  show ?thesis
  proof (cases r)
    case None
    with r have "pop cs srt clk ks q = (None, q)" by simp
    from pop_None_standing_clock[OF assms(1,3) this]
      extendEntries_iterationOrder[OF assms(2,4), of cs]
    have "clk 0 < backoffUntil e" by force
    with assms(5) show ?thesis by simp
  next
    case (Some e1)
    with r show ?thesis by auto
  qed
qed

section \<open>What push keeps\<close>

lemma keyOf_DeepCopy: "keyOf (DeepCopy s) = keyOf s"
  by (simp add: DeepCopy_def)

lemma push_queueKeyed: "queueKeyed q \<Longrightarrow> queueKeyed (snd (push cs entry q))"
  unfolding queueKeyed_def push_def Let_def
  by (auto simp: keyOf_DeepCopy split: option.splits sum.splits)

lemma push_keeps_backoff:
  "q k = Some e \<Longrightarrow>
   \<exists>e1. snd (push cs entry q) k = Some e1 \<and> backoffUntil e1 = backoffUntil e"
  unfolding push_def Let_def
  by (auto split: option.splits sum.splits)

lemma pushAll_queueKeyed: "queueKeyed q \<Longrightarrow> queueKeyed (pushAll ps q)"
  unfolding pushAll_def
  by (induction ps arbitrary: q) (auto simp: push_queueKeyed)

lemma pushAll_keeps_backoff:
  "q k = Some e \<Longrightarrow> \<exists>e1. pushAll ps q k = Some e1 \<and> backoffUntil e1 = backoffUntil e"
  unfolding pushAll_def
proof (induction ps arbitrary: q e)
  case Nil
  then show ?case by simp
next
  case (Cons p ps)
  obtain cs entry where p: "p = (cs, entry)" by (cases p)
  from push_keeps_backoff[of q k e cs entry] Cons.prems obtain e1 where
    e1: "snd (push cs entry q) k = Some e1" "backoffUntil e1 = backoffUntil e" by blast
  from Cons.IH[of "snd (push cs entry q)" e1] e1 p show ?case by simp
qed

lemma pushWithBackoff_absent:
  assumes "q (keyOf (service item)) = None" "fst (pushWithBackoff cs item d now1 now2 q) = None"
  shows "\<exists>e1. snd (pushWithBackoff cs item d now1 now2 q) (keyOf (service item)) = Some e1
            \<and> backoffUntil e1 = now1 + d"
  using assms unfolding pushWithBackoff_def push_def Let_def
  by (auto split: option.splits sum.splits)

section \<open>What a reconciliation and a run keep\<close>

lemma processQueueEntry_syncNodes_once:
  "length (filter isSyncNodes (snd (processQueueEntry cs entry))) \<le> 1"
  unfolding process_defs isSyncNodes_def
  by (auto split: sum.splits option.splits prod.splits if_splits)


lemma metricsParity_queue: "metricsParity l (st\<lparr>queue := q\<rparr>) = metricsParity l st"
  by (simp add: metricsParity_def)

lemma metricsParity_workerItem:
  assumes "metricsParity l st"
  shows "metricsParity l (workerItem it item st)"
proof -
  obtain err tr where p: "processQueueEntry (it_cs it) item = (err, tr)"
    by (cases "processQueueEntry (it_cs it) item")
  have once: "length (filter isSyncNodes tr) \<le> 1"
    using processQueueEntry_syncNodes_once[of "it_cs it" item] p by simp
  show ?thesis
  proof (cases err)
    case None
    with p assms once show ?thesis
      by (auto simp: workerItem_def Let_def metricsParity_def reconciliationsOf_def
            syncNodesAttempts_def warningEvents_def)
  next
    case (Some e)
    with p assms once show ?thesis
      by (auto simp: workerItem_def Let_def metricsParity_def reconciliationsOf_def
            syncNodesAttempts_def warningEvents_def)
  qed
qed

lemma metricsParity_workerIteration:
  "metricsParity l st \<Longrightarrow> metricsParity l (workerIteration it st)"
  unfolding workerIteration_def
  by (auto split: prod.splits option.splits
        intro!: metricsParity_workerItem simp: metricsParity_queue)

lemma metricsParity_runAction: "metricsParity l st \<Longrightarrow> metricsParity l (runAction st a)"
  by (cases a) (simp_all add: metricsParity_workerIteration metricsParity_queue)

lemma metricsParity_run: "metricsParity l st \<Longrightarrow> metricsParity l (run acts st)"
  unfolding run_def
  by (induction acts arbitrary: st) (simp_all add: metricsParity_runAction)

lemma metricsParity_new: "metricsParity l (newServiceNodeQueue\<lparr>queue := q0\<rparr>)"
  by (simp add: metricsParity_def newServiceNodeQueue_def reconciliationsOf_def
        syncNodesAttempts_def warningEvents_def)

lemma run_noRule:
  "run [Turn itNoRule] (newServiceNodeQueue\<lparr>queue := [keyX \<mapsto> entryX]\<rparr>)
     = \<lparr>queue = Map.empty, processedTotal = (\<lambda>_. 0)((''a'', ''x'') := 1),
        failuresTotal = (\<lambda>_. 0), processedDuration = (\<lambda>_. None)((''a'', ''x'') \<mapsto> 2),
        events = [],
        reconciled = [(svcX, [Lock svcX, NodesForService svcX,
                              GetLoadBalancer svcX ''p1'' [''net1''], Unlock svcX])]\<rparr>"
  by (simp add: run_def workerIteration_def workerItem_def pop_eval time_Since_def
        labelsOf_def newServiceNodeQueue_def process_defs ex_defs)


section \<open>What every schedule keeps\<close>

lemma processQueueEntry_lock_discipline:
  "\<exists>mid. snd (processQueueEntry cs entry) = Lock (service entry) # mid @ [Unlock (service entry)]
         \<and> (\<forall>c\<in>set mid. \<not> isLockOp c)"
  unfolding processQueueEntry_def processLocked_def syncAndUpdatePool_def isLockOp_def
  by (auto split: sum.splits option.splits prod.splits if_splits)

lemma processQueueEntry_notStarted:
  "notStarted (service entry, snd (processQueueEntry cs entry))"
proof -
  obtain mid where m: "snd (processQueueEntry cs entry) = Lock (service entry) # mid @ [Unlock (service entry)]"
    "\<forall>c\<in>set mid. \<not> isLockOp c"
    using processQueueEntry_lock_discipline by blast
  then show ?thesis
    by (simp add: notStarted_def inProgress_def list_all_iff)
qed

lemma workerInv_start: "workerInv (startPool items) w"
proof -
  have "list_all notStarted (map (\<lambda>(cs, entry). (service entry, snd (processQueueEntry cs entry))) xs)" for xs
    by (induction xs) (auto simp: processQueueEntry_notStarted)
  then show ?thesis
    by (auto simp: workerInv_def startPool_def idle_def processQueueEntry_notStarted
          split: list.splits)
qed

lemma notStarted_cases:
  "notStarted (svc, tr) \<Longrightarrow> \<exists>rest. tr = Lock svc # rest \<and> inProgress (svc, rest)"
  by (auto simp: notStarted_def split: list.splits call.splits)


lemma inProgress_cases:
  "inProgress (svc, tr) \<Longrightarrow>
     tr = [Unlock svc] \<or> (\<exists>c rest. tr = c # rest \<and> \<not> isLockOp c \<and> inProgress (svc, rest))"
  by (cases tr) (auto simp: inProgress_def split: if_splits)

lemma stepWorker_return:
  "running (workers p w) = Some c \<Longrightarrow>
   stepWorker w p = p\<lparr>workers := (workers p)(w := (workers p w)\<lparr>running := None\<rparr>)\<rparr>"
  by (simp add: stepWorker_def)

lemma stepWorker_nojobs:
  "running (workers p w) = None \<Longrightarrow> jobs (workers p w) = [] \<Longrightarrow> stepWorker w p = p"
  by (simp add: stepWorker_def)

lemma stepWorker_done:
  "running (workers p w) = None \<Longrightarrow> jobs (workers p w) = (svc, []) # js \<Longrightarrow>
   stepWorker w p = p\<lparr>workers := (workers p)(w := \<lparr>running = None, jobs = js\<rparr>)\<rparr>"
  by (simp add: stepWorker_def)

lemma stepWorker_lock:
  "running (workers p w) = None \<Longrightarrow> jobs (workers p w) = (svc, Lock s # tr) # js \<Longrightarrow>
   stepWorker w p =
     (if held p (keyOf s) = None
      then p\<lparr>held := (held p)(keyOf s \<mapsto> w),
             workers := (workers p)(w := \<lparr>running = None, jobs = (svc, tr) # js\<rparr>)\<rparr>
      else p)"
  by (simp add: stepWorker_def)

lemma stepWorker_unlock:
  "running (workers p w) = None \<Longrightarrow> jobs (workers p w) = (svc, Unlock s # tr) # js \<Longrightarrow>
   stepWorker w p =
     p\<lparr>held := (held p)(keyOf s := None),
       workers := (workers p)(w := \<lparr>running = None, jobs = (svc, tr) # js\<rparr>)\<rparr>"
  by (simp add: stepWorker_def)

lemma stepWorker_call:
  "running (workers p w) = None \<Longrightarrow> jobs (workers p w) = (svc, c # tr) # js \<Longrightarrow>
   \<not> isLockOp c \<Longrightarrow>
   stepWorker w p =
     p\<lparr>workers := (workers p)(w := \<lparr>running = Some c, jobs = (svc, tr) # js\<rparr>)\<rparr>"
  by (cases c) (simp_all add: stepWorker_def isLockOp_def)

lemma workerInv_cases:
  assumes "workerInv p w"
  obtains (nojobs) "jobs (workers p w) = []" "idle p w"
  | (waiting) svc tr js where "jobs (workers p w) = (svc, Lock svc # tr) # js"
      "inProgress (svc, tr)" "list_all notStarted js" "idle p w"
  | (last) svc js where "jobs (workers p w) = (svc, [Unlock svc]) # js"
      "list_all notStarted js" "owns p w (keyOf svc)"
  | (mid) svc c tr js where "jobs (workers p w) = (svc, c # tr) # js" "\<not> isLockOp c"
      "inProgress (svc, tr)" "list_all notStarted js" "owns p w (keyOf svc)"
  | (finished) svc js where "jobs (workers p w) = (svc, []) # js" "list_all notStarted js" "idle p w"
proof (cases "jobs (workers p w)")
  case Nil
  with assms have "idle p w" by (simp add: workerInv_def)
  with Nil show ?thesis by (rule nojobs)
next
  case (Cons j js)
  obtain svc tr where j: "j = (svc, tr)" by (cases j)
  from assms Cons j have rest: "list_all notStarted js"
    and disj: "(notStarted (svc, tr) \<and> idle p w) \<or> (inProgress (svc, tr) \<and> owns p w (keyOf svc))
                 \<or> (tr = [] \<and> idle p w)"
    by (simp_all add: workerInv_def)
  from disj show ?thesis
  proof (elim disjE conjE)
    assume ns: "notStarted (svc, tr)" and i: "idle p w"
    from notStarted_cases[OF ns] obtain r where "tr = Lock svc # r" "inProgress (svc, r)" by blast
    with Cons j rest i show ?thesis using waiting by blast
  next
    assume ip: "inProgress (svc, tr)" and o: "owns p w (keyOf svc)"
    from inProgress_cases[OF ip] show ?thesis
    proof (elim disjE exE conjE)
      assume "tr = [Unlock svc]"
      with Cons j rest o show ?thesis using last by blast
    next
      fix c r assume "tr = c # r" "\<not> isLockOp c" "inProgress (svc, r)"
      with Cons j rest o show ?thesis using mid by blast
    qed
  next
    assume "tr = []" and i: "idle p w"
    with Cons j rest show ?thesis using finished by blast
  qed
qed

lemma stepWorker_self:
  assumes inv: "workerInv p w"
  shows "workerInv (stepWorker w p) w"
proof (cases "running (workers p w)")
  case (Some c)
  note eq = stepWorker_return[OF Some]
  from inv show ?thesis
  proof (cases rule: workerInv_cases)
    case nojobs
    with Some show ?thesis by (simp add: idle_def)
  next
    case (waiting svc tr js)
    with Some show ?thesis by (simp add: idle_def)
  next
    case (last svc js)
    then show ?thesis unfolding eq
      by (simp add: workerInv_def owns_def inProgress_def)
  next
    case (mid svc c1 tr js)
    then have "inProgress (svc, c1 # tr)"
      by (simp add: inProgress_def)
    with mid show ?thesis unfolding eq
      by (simp add: workerInv_def owns_def)
  next
    case (finished svc js)
    with Some show ?thesis by (simp add: idle_def)
  qed
next
  case None
  from inv show ?thesis
  proof (cases rule: workerInv_cases)
    case nojobs
    with None inv show ?thesis by (simp add: stepWorker_nojobs)
  next
    case (waiting svc tr js)
    note eq = stepWorker_lock[OF None waiting(1)]
    show ?thesis
    proof (cases "held p (keyOf svc) = None")
      case True
      with waiting show ?thesis unfolding eq
        by (simp add: workerInv_def owns_def idle_def)
    next
      case False
      with inv show ?thesis unfolding eq by auto
    qed
  next
    case (last svc js)
    note eq = stepWorker_unlock[OF None last(1)]
    from last show ?thesis unfolding eq
      by (auto simp: workerInv_def owns_def idle_def)
  next
    case (mid svc c1 tr js)
    note eq = stepWorker_call[OF None mid(1,2)]
    from mid show ?thesis unfolding eq
      by (simp add: workerInv_def owns_def)
  next
    case (finished svc js)
    note eq = stepWorker_done[OF None finished(1)]
    from finished show ?thesis unfolding eq
      by (cases js) (auto simp: workerInv_def idle_def)
  qed
qed

lemma stepWorker_workers_other:
  "w' \<noteq> w \<Longrightarrow> workers (stepWorker w p) w' = workers p w'"
  by (auto simp: stepWorker_def split: option.splits list.splits call.splits prod.splits)

lemma stepWorker_held:
  assumes inv: "workerInv p w"
  shows "held (stepWorker w p) K = held p K
       \<or> (held p K = None \<and> held (stepWorker w p) K = Some w)
       \<or> (held p K = Some w \<and> held (stepWorker w p) K = None)"
proof (cases "running (workers p w)")
  case (Some c)
  then show ?thesis by (simp add: stepWorker_return)
next
  case None
  from inv show ?thesis
  proof (cases rule: workerInv_cases)
    case nojobs
    with None show ?thesis by (simp add: stepWorker_nojobs)
  next
    case (waiting svc tr js)
    show ?thesis unfolding stepWorker_lock[OF None waiting(1)] by simp
  next
    case (last svc js)
    then show ?thesis unfolding stepWorker_unlock[OF None last(1)]
      by (simp add: owns_def)
  next
    case (mid svc c1 tr js)
    show ?thesis unfolding stepWorker_call[OF None mid(1,2)] by simp
  next
    case (finished svc js)
    show ?thesis unfolding stepWorker_done[OF None finished(1)] by simp
  qed
qed

lemma stepWorker_other:
  assumes "workerInv p w" "workerInv p w'" "w' \<noteq> w"
  shows "workerInv (stepWorker w p) w'"
proof -
  have h: "held (stepWorker w p) K = Some w' \<longleftrightarrow> held p K = Some w'" for K
    using stepWorker_held[OF assms(1), of K] assms(3) by auto
  have i: "idle (stepWorker w p) w' = idle p w'"
    by (simp add: idle_def h stepWorker_workers_other[OF assms(3)])
  have o: "owns (stepWorker w p) w' k = owns p w' k" for k
    by (simp add: owns_def h)
  from assms(2) show ?thesis
    unfolding workerInv_def stepWorker_workers_other[OF assms(3)] i o .
qed

lemma stepWorker_inv: "(\<forall>w'. workerInv p w') \<Longrightarrow> workerInv (stepWorker w p) w'"
  by (cases "w' = w") (simp_all add: stepWorker_self stepWorker_other)

lemma runSchedule_inv: "(\<forall>w'. workerInv p w') \<Longrightarrow> workerInv (runSchedule sched p) w"
  unfolding runSchedule_def
proof (induction sched arbitrary: p w)
  case Nil
  then show ?case by simp
next
  case (Cons a sched)
  have "\<forall>w'. workerInv (stepWorker a p) w'"
    using Cons.prems by (simp add: stepWorker_inv)
  from Cons.IH[OF this] show ?case by simp
qed

lemma reconciling_owns:
  assumes inv: "workerInv p w" and r: "reconciling p w K"
  shows "held p K = Some w"
  using inv
proof (cases rule: workerInv_cases)
  case nojobs
  with r show ?thesis by (simp add: reconciling_def)
next
  case (waiting svc tr js)
  with r show ?thesis by (simp add: reconciling_def idle_def)
next
  case (last svc js)
  with r show ?thesis by (simp add: reconciling_def owns_def)
next
  case (mid svc c tr js)
  with r show ?thesis by (simp add: reconciling_def owns_def)
next
  case (finished svc js)
  with r show ?thesis by (simp add: reconciling_def idle_def)
qed


lemma trX: "snd (processQueueEntry csOK entryX)
  = [Lock svcX, NodesForService svcX, GetLoadBalancer svcX ''p1'' [''net1''],
          ShouldManageLB lb1, SyncNodes lb1 [''h1''] [''net1''], Unlock svcX]"
  by (simp add: process_defs ex_defs)

lemma trX2: "snd (processQueueEntry csOK entryX2)
     = [Lock svcX2, NodesForService svcX2, GetLoadBalancer svcX2 ''p1'' [''net1''],
        ShouldManageLB lb1, SyncNodes lb1 [''h1''] [''net1''], UpdateLoadBalancerPool lb1,
        Unlock svcX2]"
  by (simp add: process_defs ex_defs)

lemma trY: "snd (processQueueEntry csOK entryY)
  = [Lock svcY, NodesForService svcY, GetLoadBalancer svcY ''p1'' [''net1''],
          ShouldManageLB lb1, SyncNodes lb1 [''h1''] [''net1''], Unlock svcY]"
  by (simp add: process_defs ex_defs)

lemma keys: "keyOf svcX = keyX" "keyOf svcX2 = keyX" "keyOf svcY = keyY" "keyX \<noteq> keyY"
  "keyY \<noteq> keyX"
  "service entryX = svcX" "service entryX2 = svcX2" "service entryY = svcY"
  by (simp_all add: keyOf_def ex_defs)


section \<open>Properties of push\<close>

text \<open>
  C7. A push whose key is not in the queue: when \<^verbatim>\<open>nodesForService\<close> returns an error
  (NoNodes or any other), push returns that error and the queue is unchanged; otherwise
  a deep copy of the entry is stored under the key and push returns nil.
\<close>

theorem push_absent_key:
  assumes "q (keyOf (service entry)) = None"
  shows "(nodesForService cs (service entry) = Inl err \<longrightarrow> push cs entry q = (Some err, q))
       \<and> (nodesForService cs (service entry) = Inr nodes \<longrightarrow>
            push cs entry q =
              (None, q(keyOf (service entry) \<mapsto> entry\<lparr>service := DeepCopy (service entry)\<rparr>)))"
  using assms by (simp add: push_def)

theorem push_absent_key_witness:
  "push csNoNodes entryX Map.empty = (Some (Error ''no nodes''), Map.empty)
   \<and> push csOK entryX Map.empty = (None, [keyX \<mapsto> entryX])"
proof -
  have h: "(Map.empty :: queue) (keyOf (service entryX)) = None" by simp
  have n1: "nodesForService csNoNodes (service entryX) = Inl (Error ''no nodes'')"
    by (simp add: ex_defs)
  have n2: "nodesForService csOK (service entryX) = Inr [node1]"
    by (simp add: ex_defs)
  from push_absent_key[OF h, where cs = csNoNodes and err = "Error ''no nodes''"] n1
  have a: "push csNoNodes entryX Map.empty = (Some (Error ''no nodes''), Map.empty)" by blast
  from push_absent_key[OF h, where cs = csOK and nodes = "[node1]"] n2
  have b: "push csOK entryX Map.empty
             = (None, Map.empty(keyOf (service entryX) \<mapsto> entryX\<lparr>service := DeepCopy (service entryX)\<rparr>))"
    by blast
  have c: "Map.empty(keyOf (service entryX) \<mapsto> entryX\<lparr>service := DeepCopy (service entryX)\<rparr>)
             = [keyX \<mapsto> entryX]"
    by (simp add: keyOf_def DeepCopy_def ex_defs)
  from a b c show ?thesis by simp
qed

text \<open>
  C1, as the code has it. A push whose key is already in the queue returns nil and keeps
  one entry under the key: its service is a deep copy of the incoming service, its lb is
  nil, its start and backoffUntil are those of the existing entry, and its updatePool is
  that of the existing entry (the incoming updatePool is not read); every other key is
  untouched.
\<close>

theorem push_existing_key:
  assumes "q (keyOf (service entry)) = Some existing"
  shows "fst (push cs entry q) = None
       \<and> map_option service (snd (push cs entry q) (keyOf (service entry))) = Some (DeepCopy (service entry))
       \<and> DeepCopy (service entry) = service entry
       \<and> map_option lb (snd (push cs entry q) (keyOf (service entry))) = Some None
       \<and> map_option updatePool (snd (push cs entry q) (keyOf (service entry))) = Some (updatePool existing)
       \<and> map_option start (snd (push cs entry q) (keyOf (service entry))) = Some (start existing)
       \<and> map_option backoffUntil (snd (push cs entry q) (keyOf (service entry)))
            = Some (backoffUntil existing)
       \<and> dom (snd (push cs entry q)) = dom q
       \<and> (\<forall>k. k \<noteq> keyOf (service entry) \<longrightarrow> snd (push cs entry q) k = q k)"
  using assms by (auto simp: push_def Let_def DeepCopy_def)

theorem push_existing_key_witness:
  "fst (push csOK entryX2 [keyX \<mapsto> entryX]) = None
   \<and> map_option service (snd (push csOK entryX2 [keyX \<mapsto> entryX]) keyX) = Some svcX2
   \<and> map_option lb (snd (push csOK entryX2 [keyX \<mapsto> entryX]) keyX) = Some None
   \<and> map_option updatePool (snd (push csOK entryX2 [keyX \<mapsto> entryX]) keyX) = Some False
   \<and> map_option start (snd (push csOK entryX2 [keyX \<mapsto> entryX]) keyX) = Some 0
   \<and> map_option backoffUntil (snd (push csOK entryX2 [keyX \<mapsto> entryX]) keyX) = Some 0
   \<and> dom (snd (push csOK entryX2 [keyX \<mapsto> entryX])) = {keyX}"
proof -
  have k: "keyOf (service entryX2) = keyX" by (simp add: keyOf_def ex_defs)
  have h: "[keyX \<mapsto> entryX] (keyOf (service entryX2)) = Some entryX" by (simp add: k)
  have v: "DeepCopy (service entryX2) = svcX2" "updatePool entryX = False" "start entryX = 0"
    "backoffUntil entryX = 0"
    by (simp_all add: DeepCopy_def ex_defs)
  note t = push_existing_key[of "[keyX \<mapsto> entryX]" entryX2 entryX csOK]
  from t[OF h] show ?thesis
    unfolding k v by simp
qed

text \<open>
  C1 as stated asks for the OR of the two updatePool values. With false in the queue and
  true pushed, the entry keeps false.
\<close>

theorem push_existing_key_updatePool_counterexample:
  "map_option updatePool (snd (push csOK entryX2 [keyX \<mapsto> entryX]) keyX) = Some False
   \<and> (updatePool entryX \<or> updatePool entryX2) = True"
  by (simp add: ex_defs keyOf_def DeepCopy_def push_def)

section \<open>Properties of pop\<close>

text \<open>
  C5, as the code has it. Provided no entry comes out of its backoff while the pop runs
  (every entry is ready at every clock reading of the pop, or in backoff at every one):
  when the queue holds a ready entry, pop returns an entry of the queue that is ready and
  that no ready entry beats: every ready entry has a topRevision at most that of the
  returned one, and one with the same topRevision does not start earlier. So with two
  ready entries of distinct topRevision the higher is returned, and with equal
  topRevision the one that started earlier. topRevision is the maximum revision over
  the nodes the registry reports for the key at pop time, 0 when there are none.
\<close>

theorem pop_priority:
  assumes "sortSliceContract srt" and "iterationOrder q ks" and "clockStable clk q"
    and "q k' = Some e'" and "backoffUntil e' \<le> clk 0"
  shows "\<exists>k e. pop cs srt clk ks q = (Some e, q(keyOf (service e) := None))
           \<and> q k = Some e \<and> backoffUntil e \<le> clk 0
           \<and> topRevisionOf (nodesContainingService cs k') \<le> topRevisionOf (nodesContainingService cs k)
           \<and> (topRevisionOf (nodesContainingService cs k') = topRevisionOf (nodesContainingService cs k)
                 \<longrightarrow> start e \<le> start e')
           \<and> topRevisionOf (nodesContainingService cs k)
                = Max (insert 0 (revision ` set (nodesContainingService cs k)))"
proof -
  from pop_returns_ready[OF assms] obtain e where
    p: "pop cs srt clk ks q = (Some e, q(keyOf (service e) := None))" by blast
  from pop_Some_standing_clock[OF assms(1,3) p] obtain x where
    x: "x \<in> set (extendEntriesOf cs q ks)" "queueEntry_of x = e"
       "\<forall>y\<in>set (extendEntriesOf cs q ks). \<not> popLessAt (clk 0) y x"
    and r: "backoffUntil e \<le> clk 0" by blast
  from x(1,2) obtain k where
    k: "q k = Some e" "topRevision x = topRevisionOf (nodesContainingService cs k)"
    unfolding set_extendEntriesOf by auto
  let ?y = "\<lparr>queueEntry_of = e', topRevision = topRevisionOf (nodesContainingService cs k')\<rparr>"
  from x(3) extendEntries_iterationOrder[OF assms(2,4), of cs]
  have "\<not> popLessAt (clk 0) ?y x" by blast
  with r assms(5) x(2) k(2)
  have "topRevisionOf (nodesContainingService cs k') \<le> topRevisionOf (nodesContainingService cs k)
      \<and> (topRevisionOf (nodesContainingService cs k') = topRevisionOf (nodesContainingService cs k)
                 \<longrightarrow> start e \<le> start e')"
    by (auto simp: popLessAt_def split: if_splits)
  with p k(1) r topRevisionOf_Max show ?thesis by blast
qed

theorem pop_priority_witness:
  "pop csOK insertionSort (\<lambda>_. 0) [keyX, keyY] [keyX \<mapsto> entryX, keyY \<mapsto> entryY]
     = (Some entryY, [keyX \<mapsto> entryX])
   \<and> topRevisionOf (nodesContainingService csOK keyX) = 5
   \<and> topRevisionOf (nodesContainingService csOK keyY) = 9"
proof -
  have io: "iterationOrder [keyX \<mapsto> entryX, keyY \<mapsto> entryY] [keyX, keyY]"
    by (auto simp: iterationOrder_def ex_defs)
  have cl: "clockStable (\<lambda>_. 0) [keyX \<mapsto> entryX, keyY \<mapsto> entryY]"
    by (simp add: clockStable_def)
  have a: "[keyX \<mapsto> entryX, keyY \<mapsto> entryY] keyX = Some entryX"
    by (simp add: ex_defs)
  have b: "backoffUntil entryX \<le> (\<lambda>_. 0) (0::nat)" by (simp add: ex_defs)
  have v: "pop csOK insertionSort (\<lambda>_. 0) [keyX, keyY] [keyX \<mapsto> entryX, keyY \<mapsto> entryY]
     = (Some entryY, [keyX \<mapsto> entryX])"
    by (simp add: pop_eval ex_defs fun_upd_twist)
  from pop_priority[OF insertionSort_contract io cl a b, of csOK] v
  show ?thesis by (simp add: topRevisionOf_def ex_defs)
qed

text \<open>
  C5 as stated covers every queue with two ready entries. With a in the queue at
  revision 5, b at revision 9 in backoff until 10, c at revision 7, the map ranged over
  in the order a, b, c, and the clock passing from 9 to 10 after the first reading, the
  insertion sort leaves a first (b is in backoff when compared with a, and ready and
  higher when c is compared with it), and pop returns a, while c is ready at every
  reading and has the higher topRevision.
\<close>

theorem pop_priority_moving_clock_counterexample:
  "fst (pop csABC insertionSort clockTick [keyA, keyB, keyC]
          [keyA \<mapsto> entryA, keyB \<mapsto> entryB, keyC \<mapsto> entryC]) = Some entryA
   \<and> backoffUntil entryA \<le> clockTick 0 \<and> backoffUntil entryC \<le> clockTick 0
   \<and> topRevisionOf (nodesContainingService csABC keyA) = 5
   \<and> topRevisionOf (nodesContainingService csABC keyC) = 7"
  by (simp add: pop_eval clockTick_def ex_defs)

text \<open>
  C6. When pop returns an entry, its backoffUntil is not after the clock reading of the
  last test, so pop never returns an entry whose backoffUntil is still in the future;
  an entry whose backoffUntil is the time the clock shows is ready. So after
  pushWithBackoff of an item whose key was absent, whatever is pushed afterwards, no pop
  whose clock readings are before now1 + d returns an entry of that key, and the entry
  stays in the queue.
\<close>

theorem pop_respects_backoff:
  assumes "sortSliceContract srt" and "queueKeyed q"
    and "q (keyOf (service item)) = None"
    and "fst (pushWithBackoff cs item d now1 now2 q) = None"
  shows "(\<forall>e q'. pop cs0 srt clk0 ks0 q0 = (Some e, q') \<longrightarrow> (\<exists>i. backoffUntil e \<le> clk0 i))
       \<and> (clockStable clk0 q0 \<and> iterationOrder q0 ks0 \<and> q0 k0 = Some e0 \<and> backoffUntil e0 = clk0 0
            \<longrightarrow> fst (pop cs0 srt clk0 ks0 q0) \<noteq> None)
       \<and> ((\<forall>i. clk i < now1 + d) \<longrightarrow>
            (\<forall>e q'. pop cs1 srt clk ks (pushAll ps (snd (pushWithBackoff cs item d now1 now2 q)))
                      = (Some e, q')
               \<longrightarrow> keyOf (service e) \<noteq> keyOf (service item)
                 \<and> q' (keyOf (service item))
                     = pushAll ps (snd (pushWithBackoff cs item d now1 now2 q)) (keyOf (service item))
                 \<and> q' (keyOf (service item)) \<noteq> None))"
proof (intro conjI allI impI)
  fix e q' assume "pop cs0 srt clk0 ks0 q0 = (Some e, q')"
  then show "\<exists>i. backoffUntil e \<le> clk0 i" by (rule pop_ready)
next
  assume a: "clockStable clk0 q0 \<and> iterationOrder q0 ks0 \<and> q0 k0 = Some e0
               \<and> backoffUntil e0 = clk0 0"
  then have "backoffUntil e0 \<le> clk0 0" by simp
  with pop_returns_ready[where srt = srt and q = q0 and ks = ks0 and clk = clk0 and k = k0
      and e = e0 and cs = cs0] assms(1) a
  show "fst (pop cs0 srt clk0 ks0 q0) \<noteq> None" by auto
next
  let ?q1 = "snd (pushWithBackoff cs item d now1 now2 q)"
  let ?q2 = "pushAll ps ?q1"
  let ?k = "keyOf (service item)"
  fix e q'
  assume lt: "\<forall>i. clk i < now1 + d" and p: "pop cs1 srt clk ks ?q2 = (Some e, q')"
  from pushWithBackoff_absent[OF assms(3,4)] obtain e1 where
    e1: "?q1 ?k = Some e1" "backoffUntil e1 = now1 + d" by blast
  from pushAll_keeps_backoff[of ?q1 ?k e1 ps] e1 obtain e2 where
    e2: "?q2 ?k = Some e2" "backoffUntil e2 = now1 + d" by auto
  have keyed: "queueKeyed ?q2"
    unfolding pushWithBackoff_def by (intro pushAll_queueKeyed push_queueKeyed assms(2))
  from pop_Some_in_queue[OF assms(1) p] obtain k where k: "?q2 k = Some e" by blast
  with keyed have kk: "keyOf (service e) = k" unfolding queueKeyed_def by blast
  from pop_ready[OF p] obtain i where r: "backoffUntil e \<le> clk i" by blast
  show ne: "keyOf (service e) \<noteq> ?k"
  proof
    assume "keyOf (service e) = ?k"
    with kk k e2 have "e = e2" by simp
    with r e2(2) lt show False by (metis not_less)
  qed
  from pop_delete[OF p] ne
  show eq: "q' ?k = ?q2 ?k" by simp
  with e2(1) show "q' ?k \<noteq> None" by simp
qed

theorem pop_respects_backoff_witness:
  "fst (pop csOK insertionSort (\<lambda>_. 10 * Second) [keyX, keyY]
          (pushAll [(csOK, entryX2)]
             (snd (pushWithBackoff csOK entryX defaultFailureBackoff 0 0 [keyY \<mapsto> entryY]))))
     = Some entryY
   \<and> snd (pop csOK insertionSort (\<lambda>_. 10 * Second) [keyX, keyY]
          (pushAll [(csOK, entryX2)]
             (snd (pushWithBackoff csOK entryX defaultFailureBackoff 0 0 [keyY \<mapsto> entryY])))) keyX
     \<noteq> None
   \<and> fst (pop csOK insertionSort (\<lambda>_. 15 * Second) [keyX, keyY]
          (pushAll [(csOK, entryX2)]
             (snd (pushWithBackoff csOK entryX defaultFailureBackoff 0 0 [keyY \<mapsto> entryY]))))
     \<noteq> None"
proof -
  let ?E = "entryX\<lparr>service := svcX2, backoffUntil := 15 * Second\<rparr>"
  let ?Q0 = "[keyY \<mapsto> entryY]"
  let ?Q2 = "pushAll [(csOK, entryX2)]
               (snd (pushWithBackoff csOK entryX defaultFailureBackoff 0 0 ?Q0))"
  let ?c10 = "\<lambda>_::nat. 10 * Second"
  let ?c15 = "\<lambda>_::nat. 15 * Second"
  have kx: "keyOf (service entryX) = keyX" and kx2: "keyOf (service entryX2) = keyX"
    and ky: "keyOf (service entryY) = keyY" and ne: "keyX \<noteq> keyY"
    by (simp_all add: keyOf_def ex_defs)
  have Q2: "?Q2 = [keyY \<mapsto> entryY, keyX \<mapsto> ?E]"
    by (simp add: pushAll_def pushWithBackoff_def push_def keyOf_def DeepCopy_def
          defaultFailureBackoff_def ex_defs)
  have h1: "queueKeyed ?Q0" using ky by (simp add: queueKeyed_def)
  have h2: "?Q0 (keyOf (service entryX)) = None" unfolding kx using ne by simp
  have h3: "fst (pushWithBackoff csOK entryX defaultFailureBackoff 0 0 ?Q0) = None"
    by (simp add: pushWithBackoff_def push_def keyOf_def ex_defs)
  have h4: "clockStable ?c15 ?Q2 \<and> iterationOrder ?Q2 [keyX, keyY] \<and> ?Q2 keyX = Some ?E
              \<and> backoffUntil ?E = ?c15 0"
    unfolding Q2 using ne by (auto simp: iterationOrder_def clockStable_def)
  have h5: "\<forall>i. ?c10 i < 0 + defaultFailureBackoff"
    by (simp add: defaultFailureBackoff_def Second_def)
  have c: "fst (pop csOK insertionSort ?c10 [keyX, keyY] ?Q2) = Some entryY"
    unfolding Q2
    by (simp add: pop_eval Second_def ex_defs)
  then have v: "pop csOK insertionSort ?c10 [keyX, keyY] ?Q2
             = (Some entryY, snd (pop csOK insertionSort ?c10 [keyX, keyY] ?Q2))"
    by (cases "pop csOK insertionSort ?c10 [keyX, keyY] ?Q2") simp
  note t10 = pop_respects_backoff[OF insertionSort_contract h1 h2 h3,
      of csOK ?c10 "[keyX, keyY]" ?Q2 keyX ?E ?c10 csOK "[keyX, keyY]" "[(csOK, entryX2)]"]
  note t15 = pop_respects_backoff[OF insertionSort_contract h1 h2 h3,
      of csOK ?c15 "[keyX, keyY]" ?Q2 keyX ?E]
  from t10 h5 v have a: "snd (pop csOK insertionSort ?c10 [keyX, keyY] ?Q2)
                           (keyOf (service entryX)) \<noteq> None"
    by blast
  from t15 h4 have b: "fst (pop csOK insertionSort ?c15 [keyX, keyY] ?Q2) \<noteq> None"
    by blast
  from a b c show ?thesis unfolding kx by blast
qed

text \<open>
  C3, as the code has it. A push for a key whose entry is in backoff keeps the entry's
  backoffUntil: with no other entry in the queue, the next pop returns nothing while the
  clock is before backoffUntil, and returns the entry (with the pushed service) once the
  clock has reached backoffUntil.
\<close>

theorem push_into_backoff_pop:
  assumes "sortSliceContract srt"
    and "q (keyOf (service entry)) = Some existing"
    and "dom q = {keyOf (service entry)}"
  shows "((\<forall>i. clk i < backoffUntil existing) \<longrightarrow>
            pop cs1 srt clk ks (snd (push cs entry q)) = (None, snd (push cs entry q)))
       \<and> ((\<forall>i. backoffUntil existing \<le> clk i) \<and> iterationOrder (snd (push cs entry q)) ks \<longrightarrow>
            pop cs1 srt clk ks (snd (push cs entry q))
              = (Some (existing\<lparr>service := DeepCopy (service entry), lb := None\<rparr>), Map.empty))"
proof -
  let ?k = "keyOf (service entry)"
  let ?e = "existing\<lparr>service := DeepCopy (service entry), lb := None\<rparr>"
  let ?q1 = "snd (push cs entry q)"
  have q1: "?q1 = q(?k \<mapsto> ?e)"
    using assms(2) by (simp add: push_def Let_def)
  have only: "\<And>k e. ?q1 k = Some e \<Longrightarrow> k = ?k \<and> e = ?e"
    using assms(3) unfolding q1 by (auto split: if_splits)
  have emp: "?q1(keyOf (service ?e) := None) = Map.empty"
    using assms(3) unfolding q1 by (auto simp: keyOf_DeepCopy fun_eq_iff)
  obtain r where r: "pop cs1 srt clk ks ?q1
        = (r, if r = None then ?q1 else ?q1(keyOf (service (the r)) := None))"
    using pop_cases by blast
  have some: "\<And>e1. r = Some e1 \<Longrightarrow> e1 = ?e \<and> (\<exists>i. backoffUntil existing \<le> clk i)"
  proof -
    fix e1 assume "r = Some e1"
    with r have p: "pop cs1 srt clk ks ?q1 = (Some e1, ?q1(keyOf (service e1) := None))" by simp
    from pop_Some_in_queue[OF assms(1) p] only have "e1 = ?e" by blast
    with pop_ready[OF p] show "e1 = ?e \<and> (\<exists>i. backoffUntil existing \<le> clk i)" by simp
  qed
  have part1: "(\<forall>i. clk i < backoffUntil existing) \<longrightarrow> pop cs1 srt clk ks ?q1 = (None, ?q1)"
  proof
    assume b: "\<forall>i. clk i < backoffUntil existing"
    have "r = None"
    proof (cases r)
      case None
      then show ?thesis .
    next
      case (Some e1)
      from some[OF this] obtain i where "backoffUntil existing \<le> clk i" by blast
      with b show ?thesis by (metis not_less)
    qed
    with r show "pop cs1 srt clk ks ?q1 = (None, ?q1)" by simp
  qed
  have part2: "(\<forall>i. backoffUntil existing \<le> clk i) \<and> iterationOrder ?q1 ks \<longrightarrow>
            pop cs1 srt clk ks ?q1 = (Some ?e, Map.empty)"
  proof
    assume a: "(\<forall>i. backoffUntil existing \<le> clk i) \<and> iterationOrder ?q1 ks"
    have st: "clockStable clk ?q1"
      unfolding clockStable_def
    proof (intro allI impI)
      fix i k e assume "?q1 k = Some e"
      from only[OF this] have "backoffUntil e = backoffUntil existing" by simp
      with a show "(clk i < backoffUntil e) = (clk 0 < backoffUntil e)"
        by (metis not_less)
    qed
    have "?q1 ?k = Some ?e" unfolding q1 by simp
    moreover have "backoffUntil ?e \<le> clk 0" using a by simp
    ultimately obtain e1 where
      p: "pop cs1 srt clk ks ?q1 = (Some e1, ?q1(keyOf (service e1) := None))"
      using pop_returns_ready[OF assms(1), of ?q1 ks clk ?k ?e cs1] a st by blast
    with r have "r = Some e1" by simp
    from some[OF this] have "e1 = ?e" by simp
    with p emp show "pop cs1 srt clk ks ?q1 = (Some ?e, Map.empty)" by simp
  qed
  from part1 part2 show ?thesis by blast
qed

theorem push_into_backoff_pop_witness:
  "pop csOK insertionSort (\<lambda>_. 0) [keyX]
       (snd (push csOK entryX2 [keyX \<mapsto> entryX\<lparr>backoffUntil := 15 * Second\<rparr>]))
     = (None, [keyX \<mapsto> entryX\<lparr>service := svcX2, backoffUntil := 15 * Second\<rparr>])
   \<and> pop csOK insertionSort (\<lambda>_. 15 * Second) [keyX]
       (snd (push csOK entryX2 [keyX \<mapsto> entryX\<lparr>backoffUntil := 15 * Second\<rparr>]))
     = (Some (entryX\<lparr>service := svcX2, backoffUntil := 15 * Second\<rparr>), Map.empty)"
proof -
  let ?E = "entryX\<lparr>backoffUntil := 15 * Second\<rparr>"
  let ?Q = "[keyX \<mapsto> ?E]"
  let ?c0 = "\<lambda>_::nat. 0::int"
  let ?c15 = "\<lambda>_::nat. 15 * Second"
  have k: "keyOf (service entryX2) = keyX" by (simp add: keyOf_def ex_defs)
  have h1: "?Q (keyOf (service entryX2)) = Some ?E" by (simp add: k)
  have h2: "dom ?Q = {keyOf (service entryX2)}" by (simp add: k)
  have q1: "snd (push csOK entryX2 ?Q) = [keyX \<mapsto> ?E\<lparr>service := svcX2\<rparr>]"
    by (simp add: push_def k DeepCopy_def) (simp add: ex_defs)
  have b: "\<forall>i. ?c0 i < backoffUntil ?E" by (simp add: Second_def)
  have c: "(\<forall>i. backoffUntil ?E \<le> ?c15 i) \<and> iterationOrder (snd (push csOK entryX2 ?Q)) [keyX]"
    unfolding q1 by (simp add: iterationOrder_def)
  have d: "?E\<lparr>service := DeepCopy (service entryX2), lb := None\<rparr>
             = entryX\<lparr>service := svcX2, backoffUntil := 15 * Second\<rparr>"
    by (simp add: DeepCopy_def ex_defs)
  note t0 = push_into_backoff_pop[of insertionSort "?Q" entryX2 ?E ?c0 csOK "[keyX]" csOK]
  note t15 = push_into_backoff_pop[of insertionSort "?Q" entryX2 ?E ?c15 csOK "[keyX]" csOK]
  from t0[OF insertionSort_contract h1 h2] b
  have p1: "pop csOK insertionSort ?c0 [keyX] (snd (push csOK entryX2 ?Q))
              = (None, snd (push csOK entryX2 ?Q))" by blast
  from t15[OF insertionSort_contract h1 h2] c
  have p2: "pop csOK insertionSort ?c15 [keyX] (snd (push csOK entryX2 ?Q))
              = (Some (?E\<lparr>service := DeepCopy (service entryX2), lb := None\<rparr>), Map.empty)"
    by blast
  from p1 p2 show ?thesis unfolding d unfolding q1 by (simp add: ex_defs)
qed

text \<open>
  C3 as stated has the pop after the fresh push return x at once. With x in a 15 second
  backoff, that pop returns nothing.
\<close>

theorem push_into_backoff_pop_counterexample:
  "fst (pop csOK insertionSort (\<lambda>_. 0) [keyX]
          (snd (push csOK entryX2 [keyX \<mapsto> entryX\<lparr>backoffUntil := 15 * Second\<rparr>]))) = None
   \<and> backoffUntil (entryX\<lparr>backoffUntil := 15 * Second\<rparr>) = 0 + defaultFailureBackoff"
  by (simp add: pop_eval push_def DeepCopy_def Second_def defaultFailureBackoff_def ex_defs)

section \<open>Properties of processQueueEntry and of the worker loop\<close>

text \<open>
  C2, as the code has it. In every reconciliation the adapter's operations that are
  called come in the order getLoadBalancer, shouldManageLB, syncNodes,
  updateLoadBalancerPool, each at most once, and updateLoadBalancerPool is called only
  for an entry flagged updatePool and after a syncNodes that returned nil. For an entry
  popped with a nil lb, syncNodes and updateLoadBalancerPool are called only on the load
  balancer that getLoadBalancer returned and for which shouldManageLB was called and
  returned nil in this reconciliation; when getLoadBalancer returns a load balancer with
  a rule and shouldManageLB returns nil, the calls on the adapter are getLoadBalancer,
  shouldManageLB, syncNodes and, exactly when syncNodes returned nil and the entry is
  flagged updatePool, updateLoadBalancerPool; otherwise they stop at getLoadBalancer or
  at shouldManageLB. For an entry popped with a non-nil lb, getLoadBalancer and
  shouldManageLB are not called: when the registry returns nodes, the calls on the
  adapter are syncNodes on the cached load balancer and, exactly when syncNodes
  returned nil and the entry is flagged updatePool, updateLoadBalancerPool on it. When
  the registry returns an error, no operation of the adapter is called.
\<close>

theorem processQueueEntry_adapter_order:
  "sorted_wrt (<) (adapterOrder (snd (processQueueEntry cs entry)))
   \<and> (lb entry = None \<longrightarrow>
        (\<forall>l. (\<exists>h n. SyncNodes l h n \<in> set (snd (processQueueEntry cs entry)))
               \<or> UpdateLoadBalancerPool l \<in> set (snd (processQueueEntry cs entry))
           \<longrightarrow> ShouldManageLB l \<in> set (snd (processQueueEntry cs entry))
               \<and> shouldManageLB cs l = None
               \<and> (\<exists>p ns. GetLoadBalancer (service entry) p ns \<in> set (snd (processQueueEntry cs entry))
                     \<and> getLoadBalancer cs (service entry) p ns = Inr l)))
   \<and> (\<forall>l0. lb entry = Some l0 \<longrightarrow>
        (\<forall>c\<in>set (snd (processQueueEntry cs entry)). adapterRank c \<noteq> Some 1 \<and> adapterRank c \<noteq> Some 2)
        \<and> (\<forall>l h n. SyncNodes l h n \<in> set (snd (processQueueEntry cs entry)) \<longrightarrow> l = l0)
        \<and> (\<forall>ns. nodesForService cs (service entry) = Inr ns \<longrightarrow>
              (\<exists>h n. SyncNodes l0 h n \<in> set (snd (processQueueEntry cs entry)))))
   \<and> (\<forall>l. UpdateLoadBalancerPool l \<in> set (snd (processQueueEntry cs entry)) \<longrightarrow>
         updatePool entry
         \<and> (\<exists>h n. SyncNodes l h n \<in> set (snd (processQueueEntry cs entry)) \<and> syncNodes cs l h n = None))
   \<and> (\<forall>l0 ns h n p.
         lb entry = Some l0 \<and> nodesForService cs (service entry) = Inr ns
         \<and> idsForNodes cs ns = (h, n, p) \<longrightarrow>
         adapterCalls (snd (processQueueEntry cs entry))
           = SyncNodes l0 h n #
             (if syncNodes cs l0 h n = None \<and> updatePool entry
              then [UpdateLoadBalancerPool l0] else []))
   \<and> (\<forall>ns h n p l.
         lb entry = None \<and> nodesForService cs (service entry) = Inr ns
         \<and> idsForNodes cs ns = (h, n, p)
         \<and> getLoadBalancer cs (service entry) p n = Inr l \<and> rule l \<noteq> None
         \<and> shouldManageLB cs l = None \<longrightarrow>
         adapterCalls (snd (processQueueEntry cs entry))
           = GetLoadBalancer (service entry) p n # ShouldManageLB l # SyncNodes l h n #
             (if syncNodes cs l h n = None \<and> updatePool entry
              then [UpdateLoadBalancerPool l] else []))
   \<and> (\<forall>ns h n p l.
         lb entry = None \<and> nodesForService cs (service entry) = Inr ns
         \<and> idsForNodes cs ns = (h, n, p)
         \<and> getLoadBalancer cs (service entry) p n = Inr l \<and> rule l \<noteq> None
         \<and> shouldManageLB cs l \<noteq> None \<longrightarrow>
         adapterCalls (snd (processQueueEntry cs entry))
           = [GetLoadBalancer (service entry) p n, ShouldManageLB l])
   \<and> (\<forall>ns h n p.
         lb entry = None \<and> nodesForService cs (service entry) = Inr ns
         \<and> idsForNodes cs ns = (h, n, p)
         \<and> (\<forall>l. getLoadBalancer cs (service entry) p n = Inr l \<longrightarrow> rule l = None) \<longrightarrow>
         adapterCalls (snd (processQueueEntry cs entry)) = [GetLoadBalancer (service entry) p n])
   \<and> (\<forall>err. nodesForService cs (service entry) = Inl err \<longrightarrow>
         adapterCalls (snd (processQueueEntry cs entry)) = [])"
proof -
  have old: "sorted_wrt (<) (adapterOrder (snd (processQueueEntry cs entry)))
   \<and> (lb entry = None \<longrightarrow>
        (\<forall>l. (\<exists>h n. SyncNodes l h n \<in> set (snd (processQueueEntry cs entry)))
               \<or> UpdateLoadBalancerPool l \<in> set (snd (processQueueEntry cs entry))
           \<longrightarrow> ShouldManageLB l \<in> set (snd (processQueueEntry cs entry))
               \<and> shouldManageLB cs l = None
               \<and> (\<exists>p ns. GetLoadBalancer (service entry) p ns \<in> set (snd (processQueueEntry cs entry))
                     \<and> getLoadBalancer cs (service entry) p ns = Inr l)))
   \<and> (\<forall>l0. lb entry = Some l0 \<longrightarrow>
        (\<forall>c\<in>set (snd (processQueueEntry cs entry)). adapterRank c \<noteq> Some 1 \<and> adapterRank c \<noteq> Some 2)
        \<and> (\<forall>l h n. SyncNodes l h n \<in> set (snd (processQueueEntry cs entry)) \<longrightarrow> l = l0)
        \<and> (\<forall>ns. nodesForService cs (service entry) = Inr ns \<longrightarrow>
              (\<exists>h n. SyncNodes l0 h n \<in> set (snd (processQueueEntry cs entry)))))
   \<and> (\<forall>l. UpdateLoadBalancerPool l \<in> set (snd (processQueueEntry cs entry)) \<longrightarrow>
         updatePool entry
         \<and> (\<exists>h n. SyncNodes l h n \<in> set (snd (processQueueEntry cs entry)) \<and> syncNodes cs l h n = None))"
    unfolding process_defs adapterOrder_def
    by (auto split: sum.splits option.splits prod.splits if_splits)
  have cached: "\<forall>l0 ns h n p.
         lb entry = Some l0 \<and> nodesForService cs (service entry) = Inr ns
         \<and> idsForNodes cs ns = (h, n, p) \<longrightarrow>
         adapterCalls (snd (processQueueEntry cs entry))
           = SyncNodes l0 h n #
             (if syncNodes cs l0 h n = None \<and> updatePool entry
              then [UpdateLoadBalancerPool l0] else [])"
    unfolding process_defs adapterCalls_def
    by (auto split: sum.splits option.splits prod.splits if_splits)
  have managed: "\<forall>ns h n p l.
         lb entry = None \<and> nodesForService cs (service entry) = Inr ns
         \<and> idsForNodes cs ns = (h, n, p)
         \<and> getLoadBalancer cs (service entry) p n = Inr l \<and> rule l \<noteq> None
         \<and> shouldManageLB cs l = None \<longrightarrow>
         adapterCalls (snd (processQueueEntry cs entry))
           = GetLoadBalancer (service entry) p n # ShouldManageLB l # SyncNodes l h n #
             (if syncNodes cs l h n = None \<and> updatePool entry
              then [UpdateLoadBalancerPool l] else [])"
    unfolding process_defs adapterCalls_def
    by (auto split: sum.splits option.splits prod.splits if_splits)
  have skipped: "\<forall>ns h n p l.
         lb entry = None \<and> nodesForService cs (service entry) = Inr ns
         \<and> idsForNodes cs ns = (h, n, p)
         \<and> getLoadBalancer cs (service entry) p n = Inr l \<and> rule l \<noteq> None
         \<and> shouldManageLB cs l \<noteq> None \<longrightarrow>
         adapterCalls (snd (processQueueEntry cs entry))
           = [GetLoadBalancer (service entry) p n, ShouldManageLB l]"
    unfolding process_defs adapterCalls_def
    by (auto split: sum.splits option.splits prod.splits if_splits)
  have norule: "\<forall>ns h n p.
         lb entry = None \<and> nodesForService cs (service entry) = Inr ns
         \<and> idsForNodes cs ns = (h, n, p)
         \<and> (\<forall>l. getLoadBalancer cs (service entry) p n = Inr l \<longrightarrow> rule l = None) \<longrightarrow>
         adapterCalls (snd (processQueueEntry cs entry)) = [GetLoadBalancer (service entry) p n]"
    unfolding process_defs adapterCalls_def
    by (auto split: sum.splits option.splits prod.splits if_splits)
  have nonodes: "\<forall>err. nodesForService cs (service entry) = Inl err \<longrightarrow>
         adapterCalls (snd (processQueueEntry cs entry)) = []"
    unfolding process_defs adapterCalls_def
    by (auto split: sum.splits option.splits prod.splits if_splits)
  from old cached managed skipped norule nonodes show ?thesis by blast
qed

theorem processQueueEntry_adapter_order_witness:
  "adapterCalls (snd (processQueueEntry csOK (entryCached\<lparr>updatePool := True\<rparr>)))
     = [SyncNodes lb1 [''h1''] [''net1''], UpdateLoadBalancerPool lb1]
   \<and> adapterCalls (snd (processQueueEntry csOK entryCached)) = [SyncNodes lb1 [''h1''] [''net1'']]
   \<and> adapterCalls (snd (processQueueEntry csOK entryX2))
     = [GetLoadBalancer svcX2 ''p1'' [''net1''], ShouldManageLB lb1,
        SyncNodes lb1 [''h1''] [''net1''], UpdateLoadBalancerPool lb1]
   \<and> adapterOrder (snd (processQueueEntry csOK entryX2)) = [1, 2, 3, 4]
   \<and> sorted_wrt (<) (adapterOrder (snd (processQueueEntry csOK entryX2)))"
proof -
  let ?E = "entryCached\<lparr>updatePool := True\<rparr>"
  have h1: "lb ?E = Some lb1 \<and> nodesForService csOK (service ?E) = Inr [node1]
            \<and> idsForNodes csOK [node1] = ([''h1''], [''net1''], ''p1'')"
    by (simp add: ex_defs)
  have h2: "lb entryCached = Some lb1 \<and> nodesForService csOK (service entryCached) = Inr [node1]
            \<and> idsForNodes csOK [node1] = ([''h1''], [''net1''], ''p1'')"
    by (simp add: ex_defs)
  have h3: "lb entryX2 = None \<and> nodesForService csOK (service entryX2) = Inr [node1]
            \<and> idsForNodes csOK [node1] = ([''h1''], [''net1''], ''p1'')
            \<and> getLoadBalancer csOK (service entryX2) ''p1'' [''net1''] = Inr lb1
            \<and> rule lb1 \<noteq> None \<and> shouldManageLB csOK lb1 = None"
    by (simp add: ex_defs)
  have v: "syncNodes csOK lb1 [''h1''] [''net1''] = None" "updatePool ?E" "\<not> updatePool entryCached"
    "updatePool entryX2" "service entryX2 = svcX2"
    by (simp_all add: ex_defs)
  note tE = processQueueEntry_adapter_order[of csOK ?E]
  note tC = processQueueEntry_adapter_order[of csOK entryCached]
  note tX = processQueueEntry_adapter_order[of csOK entryX2]
  note cachedE = tE[THEN conjunct2, THEN conjunct2, THEN conjunct2, THEN conjunct2,
      THEN conjunct1, rule_format]
  note cachedC = tC[THEN conjunct2, THEN conjunct2, THEN conjunct2, THEN conjunct2,
      THEN conjunct1, rule_format]
  note managedX = tX[THEN conjunct2, THEN conjunct2, THEN conjunct2, THEN conjunct2,
      THEN conjunct2, THEN conjunct1, rule_format]
  have a: "adapterCalls (snd (processQueueEntry csOK ?E))
           = SyncNodes lb1 [''h1''] [''net1''] #
             (if syncNodes csOK lb1 [''h1''] [''net1''] = None \<and> updatePool ?E
              then [UpdateLoadBalancerPool lb1] else [])"
    by (rule cachedE[OF h1])
  have b: "adapterCalls (snd (processQueueEntry csOK entryCached))
           = SyncNodes lb1 [''h1''] [''net1''] #
             (if syncNodes csOK lb1 [''h1''] [''net1''] = None \<and> updatePool entryCached
              then [UpdateLoadBalancerPool lb1] else [])"
    by (rule cachedC[OF h2])
  have c: "adapterCalls (snd (processQueueEntry csOK entryX2))
           = GetLoadBalancer (service entryX2) ''p1'' [''net1''] # ShouldManageLB lb1
             # SyncNodes lb1 [''h1''] [''net1''] #
             (if syncNodes csOK lb1 [''h1''] [''net1''] = None \<and> updatePool entryX2
              then [UpdateLoadBalancerPool lb1] else [])"
    by (rule managedX[OF h3])
  have d: "sorted_wrt (<) (adapterOrder (snd (processQueueEntry csOK entryX2)))"
    by (rule tX[THEN conjunct1])
  have e: "adapterOrder (snd (processQueueEntry csOK entryX2)) = [1, 2, 3, 4]"
    by (simp add: process_defs adapterOrder_def ex_defs)
  from a b c d e show ?thesis by (simp add: v)
qed

text \<open>
  C2 as stated covers an entry popped with a non-nil lb. For such an entry syncNodes is
  called with no call of shouldManageLB in the reconciliation, here with an adapter
  whose shouldManageLB would answer Skip.
\<close>

theorem processQueueEntry_cached_lb_counterexample:
  "snd (processQueueEntry csSkip entryCached)
     = [Lock svcX, NodesForService svcX, SyncNodes lb1 [''h1''] [''net1''], Unlock svcX]
   \<and> shouldManageLB csSkip lb1 = Some (Error ''skip'')"
  by (simp add: process_defs ex_defs)





text \<open>
  C4, as the code has it. After any run from a fresh queue, for every pair of labels:
  processed_total is the number of reconciliations run (every popped item, whatever its
  outcome), failures_total is the number of Warning events emitted, every event is a
  Warning event, the number of syncNodes attempts is at most processed_total, and
  failures_total is at most processed_total.
\<close>

theorem metrics_parity:
  "processedTotal (run acts (newServiceNodeQueue\<lparr>queue := q0\<rparr>)) l
     = reconciliationsOf l (reconciled (run acts (newServiceNodeQueue\<lparr>queue := q0\<rparr>)))
   \<and> failuresTotal (run acts (newServiceNodeQueue\<lparr>queue := q0\<rparr>)) l
     = warningEvents l (events (run acts (newServiceNodeQueue\<lparr>queue := q0\<rparr>)))
   \<and> warningEvents l (events (run acts (newServiceNodeQueue\<lparr>queue := q0\<rparr>)))
     = length (filter (\<lambda>ev. labelsOf (ev_object ev) = l)
                 (events (run acts (newServiceNodeQueue\<lparr>queue := q0\<rparr>))))
   \<and> syncNodesAttempts l (reconciled (run acts (newServiceNodeQueue\<lparr>queue := q0\<rparr>)))
     \<le> processedTotal (run acts (newServiceNodeQueue\<lparr>queue := q0\<rparr>)) l
   \<and> failuresTotal (run acts (newServiceNodeQueue\<lparr>queue := q0\<rparr>)) l
     \<le> processedTotal (run acts (newServiceNodeQueue\<lparr>queue := q0\<rparr>)) l"
  using metricsParity_run[OF metricsParity_new, of l acts q0]
  unfolding metricsParity_def by blast


theorem metrics_parity_witness:
  "processedTotal (run [Turn itNoRule] (newServiceNodeQueue\<lparr>queue := [keyX \<mapsto> entryX]\<rparr>)) (''a'', ''x'') = 1
   \<and> reconciliationsOf (''a'', ''x'')
        (reconciled (run [Turn itNoRule] (newServiceNodeQueue\<lparr>queue := [keyX \<mapsto> entryX]\<rparr>))) = 1
   \<and> syncNodesAttempts (''a'', ''x'')
        (reconciled (run [Turn itNoRule] (newServiceNodeQueue\<lparr>queue := [keyX \<mapsto> entryX]\<rparr>))) \<le> 1"
  using metrics_parity[of "[Turn itNoRule]" "[keyX \<mapsto> entryX]" "(''a'', ''x'')"]
  by (simp add: run_noRule)


text \<open>
  C4 as stated equates processed_total + failures_total with the number of syncNodes
  attempts. An item whose load balancer has no rule is counted in processed_total and
  never reaches syncNodes: the sum is 1 and there are 0 attempts.
\<close>

theorem metrics_parity_counterexample:
  "processedTotal (run [Turn itNoRule] (newServiceNodeQueue\<lparr>queue := [keyX \<mapsto> entryX]\<rparr>)) (''a'', ''x'')
     + failuresTotal (run [Turn itNoRule] (newServiceNodeQueue\<lparr>queue := [keyX \<mapsto> entryX]\<rparr>)) (''a'', ''x'')
     = 1
   \<and> syncNodesAttempts (''a'', ''x'')
        (reconciled (run [Turn itNoRule] (newServiceNodeQueue\<lparr>queue := [keyX \<mapsto> entryX]\<rparr>))) = 0"
  unfolding run_noRule
  by (simp add: syncNodesAttempts_def isSyncNodes_def labelsOf_def ex_defs)

section \<open>Properties of getNodeByProviderID\<close>

text \<open>
  C10. With a node-name label configured, getNodeByProviderID returns no node for any
  provider id: a non-empty list of nodes (one match included) gives the error
  "multiple nodes found", an empty list the error "no node found". A node is returned
  only with the label unset, by getNodeByName.
\<close>

theorem getNodeByProviderID_labelled:
  assumes "nodeNameLabel cs \<noteq> []"
  shows "(\<forall>n. getNodeByProviderID cs pid \<noteq> Inr n)
       \<and> (\<forall>items. nodes_List cs (nodeNameLabel cs @ ''='' @ pid) = Inr items \<and> items \<noteq> [] \<longrightarrow>
             getNodeByProviderID cs pid
               = Inl (Error (''multiple nodes found for provider id '' @ pid)))
       \<and> (nodes_List cs (nodeNameLabel cs @ ''='' @ pid) = Inr [] \<longrightarrow>
             getNodeByProviderID cs pid = Inl (Error (''no node found for provider id '' @ pid)))
       \<and> (\<forall>cs1 n. getNodeByProviderID cs1 pid = Inr n \<longrightarrow>
             nodeNameLabel cs1 = [] \<and> getNodeByName cs1 pid = Inr n)"
  using assms unfolding getNodeByProviderID_def
  by (auto split: sum.splits list.splits if_splits)


theorem getNodeByProviderID_labelled_witness:
  "getNodeByProviderID csLabelled ''vm-1'' = Inl (Error ''multiple nodes found for provider id vm-1'')
   \<and> getNodeByProviderID csLabelled ''vm-2'' = Inl (Error ''no node found for provider id vm-2'')
   \<and> getNodeByProviderID csUnlabelled ''node-1''
        = Inr \<lparr>projectID = ''proj-1'', node_name = ''node-1'', environment = []\<rparr>"
proof -
  have h: "nodeNameLabel csLabelled \<noteq> []" by (simp add: csLabelled_def)
  have l1: "nodes_List csLabelled (nodeNameLabel csLabelled @ ''='' @ ''vm-1'') = Inr [metaNode1]
            \<and> [metaNode1] \<noteq> []"
    by (simp add: csLabelled_def)
  have l2: "nodes_List csLabelled (nodeNameLabel csLabelled @ ''='' @ ''vm-2'') = Inr []"
    by (simp add: csLabelled_def)
  from getNodeByProviderID_labelled[OF h, of "''vm-1''"] l1
  have a: "getNodeByProviderID csLabelled ''vm-1''
             = Inl (Error (''multiple nodes found for provider id '' @ ''vm-1''))" by blast
  from getNodeByProviderID_labelled[OF h, of "''vm-2''"] l2
  have b: "getNodeByProviderID csLabelled ''vm-2''
             = Inl (Error (''no node found for provider id '' @ ''vm-2''))" by blast
  have c: "getNodeByProviderID csUnlabelled ''node-1''
        = Inr \<lparr>projectID = ''proj-1'', node_name = ''node-1'', environment = []\<rparr>"
    by (simp add: getNodeByProviderID_def getNodeByName_def newNode_def getLabelOrAnnotation_def
          csUnlabelled_def csLabelled_def metaNode1_def)
  from a b c show ?thesis by simp
qed

section \<open>Properties of the service lock\<close>

text \<open>
  C9. A reconciliation takes the service lock first and releases it last, with every
  call on the registry and the adapter in between. So under every schedule of the
  workers, a worker that is inside a call of a reconciliation of the key K owns the lock
  of K, and no two workers are inside calls of reconciliations of the same key at the same
  time.
\<close>

theorem service_lock_mutual_exclusion:
  "(\<exists>mid. snd (processQueueEntry cs entry) = Lock (service entry) # mid @ [Unlock (service entry)]
          \<and> (\<forall>c\<in>set mid. \<not> isLockOp c))
   \<and> (reconciling (runSchedule sched (startPool items)) w1 K
         \<longrightarrow> held (runSchedule sched (startPool items)) K = Some w1)
   \<and> (reconciling (runSchedule sched (startPool items)) w1 K
       \<and> reconciling (runSchedule sched (startPool items)) w2 K \<longrightarrow> w1 = w2)"
proof -
  have inv: "workerInv (runSchedule sched (startPool items)) w" for w
    by (rule runSchedule_inv) (simp add: workerInv_start)
  have own: "reconciling (runSchedule sched (startPool items)) w K
        \<Longrightarrow> held (runSchedule sched (startPool items)) K = Some w" for w
    by (rule reconciling_owns[OF inv])
  from own[of w1] own[of w2] processQueueEntry_lock_discipline[of cs entry]
  show ?thesis by auto
qed

theorem service_lock_mutual_exclusion_witness:
  "reconciling (runSchedule [0, 0, 1, 1] (startPool sameKeyWorkers)) 0 keyX
   \<and> \<not> reconciling (runSchedule [0, 0, 1, 1] (startPool sameKeyWorkers)) 1 keyX
   \<and> held (runSchedule [0, 0, 1, 1] (startPool sameKeyWorkers)) keyX = Some 0
   \<and> reconciling (runSchedule [0, 0, 1, 1] (startPool otherKeyWorkers)) 0 keyX
   \<and> reconciling (runSchedule [0, 0, 1, 1] (startPool otherKeyWorkers)) 1 keyY"
proof -
  have a: "reconciling (runSchedule [0, 0, 1, 1] (startPool sameKeyWorkers)) 0 keyX"
    by (simp add: runSchedule_def startPool_def sameKeyWorkers_def stepWorker_def
          reconciling_def trX trX2 keys)
  have b: "reconciling (runSchedule [0, 0, 1, 1] (startPool otherKeyWorkers)) 0 keyX
     \<and> reconciling (runSchedule [0, 0, 1, 1] (startPool otherKeyWorkers)) 1 keyY"
    by (simp add: runSchedule_def startPool_def otherKeyWorkers_def stepWorker_def
          reconciling_def trX trY keys)
  note t = service_lock_mutual_exclusion[of csOK entryX "[0, 0, 1, 1]" sameKeyWorkers 0 keyX 1]
  from t a have c: "held (runSchedule [0, 0, 1, 1] (startPool sameKeyWorkers)) keyX = Some 0"
    by blast
  from t a have d: "\<not> reconciling (runSchedule [0, 0, 1, 1] (startPool sameKeyWorkers)) 1 keyX"
    by auto
  from a b c d show ?thesis by blast
qed

end
